theory Spec2Isabelle
  imports Complex_Main "HOL-Library.Monad_Syntax" "HOL-Library.Sublist"
begin

section \<open>Family tree layout: data model\<close>

text \<open>
  The source is \<^verbatim>\<open>src/App.tsx\<close>. A JavaScript \<^verbatim>\<open>number\<close> is an IEEE double, and every
  arithmetic operation rounds its exact result to a double. The layout is modelled twice:
  \<open>layoutTree\<close> computes in exact rational arithmetic, and \<open>layoutTree_fl\<close> applies a rounding
  function after every operation, the code being the case of the rounding of doubles
  (\<open>round_double\<close>). The two agree wherever no operation rounds (lemma
  \<open>layoutTree_fl_exact\<close>), as with the parameters of the application, \<^verbatim>\<open>x = 0\<close>,
  \<^verbatim>\<open>y = 80\<close>, \<^verbatim>\<open>spacingX = 180\<close> and \<^verbatim>\<open>spacingY = 160\<close>.

  \<^verbatim>\<open>interface FamilyMember { id: string; name: string; children: FamilyMember[] }\<close>
\<close>

datatype FamilyMember =
  FamilyMember (member_id: string) (member_name: string) (member_children: "FamilyMember list")

text \<open>
  The object \<^verbatim>\<open>{ ...node, x, y, width, children }\<close> that \<^verbatim>\<open>layoutTree\<close> returns
  (typed \<^verbatim>\<open>any\<close> in the source).
\<close>

datatype PositionedNode =
  PositionedNode (node_id: string) (node_name: string)
    (node_x: rat) (node_y: rat) (node_width: rat) (node_children: "PositionedNode list")

section \<open>layoutTree\<close>

text \<open>The assignment \<^verbatim>\<open>childLayout.x = v\<close>: only the field \<^verbatim>\<open>x\<close> of that object changes.\<close>

fun set_x :: "rat \<Rightarrow> PositionedNode \<Rightarrow> PositionedNode" where
  "set_x v (PositionedNode i n x y w cs) = PositionedNode i n v y w cs"

text \<open>
  One round of the \<^verbatim>\<open>forEach\<close> of lines 113 to 117; the loop state is the variable
  \<^verbatim>\<open>currentX\<close> and the array \<^verbatim>\<open>children\<close>:
  \<^verbatim>\<open>
    childLayout.x = currentX + childLayout.width / 2;
    children.push(childLayout);
    currentX += childLayout.width + spacingX * 0.5;
  \<close>
\<close>

fun place :: "rat \<Rightarrow> rat \<times> PositionedNode list \<Rightarrow> PositionedNode \<Rightarrow> rat \<times> PositionedNode list" where
  "place spacingX (currentX, children) childLayout =
     (currentX + node_width childLayout + spacingX * (1 / 2),
      children @ [set_x (currentX + node_width childLayout / 2) childLayout])"

text \<open>
  \<^verbatim>\<open>layoutTree(node, x, y, level, siblingIndex, siblingsCount, spacingX, spacingY)\<close>,
  lines 90 to 130. \<^verbatim>\<open>node.children.map((child, i) => ...)\<close> is a map over the children
  paired with their indices, \<^verbatim>\<open>reduce\<close> is a left fold from 0, and \<^verbatim>\<open>Math.max\<close> is
  \<^const>\<open>max\<close>. The reads \<^verbatim>\<open>children[0]\<close> and \<^verbatim>\<open>children[children.length - 1]\<close> happen
  only in the branch where the array is not empty. The arithmetic here is exact; the same
  function with a rounding after every operation is \<open>layoutTree_fl\<close> below.
\<close>

function layoutTree ::
  "FamilyMember \<Rightarrow> rat \<Rightarrow> rat \<Rightarrow> rat \<Rightarrow> rat \<Rightarrow> rat \<Rightarrow> rat \<Rightarrow> rat \<Rightarrow> PositionedNode" where
  "layoutTree node x y level siblingIndex siblingsCount spacingX spacingY =
     (if length (member_children node) > 0 then
        let childLayouts =
              map (\<lambda>(i, child).
                     layoutTree child 0 (y + spacingY) (level + 1) (of_nat i)
                       (of_nat (length (member_children node))) spacingX spacingY)
                  (enumerate 0 (member_children node));
            totalChildrenWidth = foldl (\<lambda>sum c. sum + node_width c) 0 childLayouts;
            totalSpacing = spacingX * (1 / 2) * (of_nat (length childLayouts) - 1);
            width = max (totalChildrenWidth + totalSpacing) spacingX;
            (currentX, children) = foldl (place spacingX) (x - width / 2, []) childLayouts;
            x' = (if length children = 1 then node_x (children ! 0)
                  else (node_x (children ! 0) + node_x (children ! (length children - 1))) / 2)
        in PositionedNode (member_id node) (member_name node) x' y width children
      else PositionedNode (member_id node) (member_name node) x y spacingX [])"
  by pat_completeness auto
termination
proof (relation "measure (\<lambda>(node, _). size node)")
  show "wf (measure (\<lambda>(node, _). size node))"
    by simp
next
  fix node :: FamilyMember and x y level siblingIndex siblingsCount spacingX spacingY :: rat
    and p :: "nat \<times> FamilyMember" and i child
  assume "p \<in> set (enumerate 0 (member_children node))" and "(i, child) = p"
  then have "child \<in> set (member_children node)"
    by (auto simp: in_set_enumerate_eq)
  then have "size child < size node"
    by (cases node) (auto simp: less_Suc_eq_le size_list_estimation')
  then show "((child, 0, y + spacingY, level + 1, of_nat i,
               of_nat (length (member_children node)), spacingX, spacingY),
              (node, x, y, level, siblingIndex, siblingsCount, spacingX, spacingY))
             \<in> measure (\<lambda>(node, _). size node)"
    by simp
qed

declare layoutTree.simps [simp del]

section \<open>Reading a positioned tree\<close>

text \<open>Every node of a positioned tree: the node itself, then the nodes of its children.\<close>

fun nodes :: "PositionedNode \<Rightarrow> PositionedNode list" where
  "nodes (PositionedNode i n x y w cs) = PositionedNode i n x y w cs # concat (map nodes cs)"

text \<open>The nodes at depth \<open>d\<close> below a node; the node itself is at depth 0.\<close>

fun nodes_at :: "nat \<Rightarrow> PositionedNode \<Rightarrow> PositionedNode list" where
  "nodes_at 0 node = [node]"
| "nodes_at (Suc d) node = concat (map (nodes_at d) (node_children node))"

text \<open>The packed horizontal range of a node: its centre \<open>x\<close> plus and minus half its width.\<close>

definition x_range :: "PositionedNode \<Rightarrow> rat set" where
  "x_range node = {node_x node - node_width node / 2 .. node_x node + node_width node / 2}"

section \<open>getTreeBounds\<close>

text \<open>
  The accumulator starts at \<^verbatim>\<open>Infinity\<close> and \<^verbatim>\<open>-Infinity\<close>, so its fields range over the
  rationals extended by the two infinities. \<^verbatim>\<open>Math.min\<close> and \<^verbatim>\<open>Math.max\<close> on them:
\<close>

datatype number = NegInfinity | Finite rat | Infinity

fun math_min :: "number \<Rightarrow> number \<Rightarrow> number" where
  "math_min NegInfinity b = NegInfinity"
| "math_min a NegInfinity = NegInfinity"
| "math_min Infinity b = b"
| "math_min a Infinity = a"
| "math_min (Finite a) (Finite b) = Finite (min a b)"

fun math_max :: "number \<Rightarrow> number \<Rightarrow> number" where
  "math_max Infinity b = Infinity"
| "math_max a Infinity = Infinity"
| "math_max NegInfinity b = b"
| "math_max a NegInfinity = a"
| "math_max (Finite a) (Finite b) = Finite (max a b)"

record Bounds =
  minX :: number
  maxX :: number
  minY :: number
  maxY :: number

text \<open>
  The default value of the parameter \<^verbatim>\<open>bounds\<close>, a fresh object at every call that
  omits it.
\<close>

definition default_bounds :: Bounds where
  "default_bounds = \<lparr>minX = Infinity, maxX = NegInfinity, minY = Infinity, maxY = NegInfinity\<rparr>"

text \<open>
  \<^verbatim>\<open>getTreeBounds(node, bounds)\<close>, lines 225 to 234. The source updates the object
  \<^verbatim>\<open>bounds\<close> in place and hands the same object to every recursive call; the model passes
  the record along and returns it. \<^verbatim>\<open>node.children\<close> is an array, hence truthy, in
  every positioned node.
\<close>

function getTreeBounds :: "PositionedNode \<Rightarrow> Bounds \<Rightarrow> Bounds" where
  "getTreeBounds node bounds =
     (let bounds = bounds\<lparr>minX := math_min (minX bounds) (Finite (node_x node))\<rparr>;
          bounds = bounds\<lparr>maxX := math_max (maxX bounds) (Finite (node_x node + 100))\<rparr>;
          bounds = bounds\<lparr>minY := math_min (minY bounds) (Finite (node_y node))\<rparr>;
          bounds = bounds\<lparr>maxY := math_max (maxY bounds) (Finite (node_y node + 80))\<rparr>
      in foldl (\<lambda>bounds child. getTreeBounds child bounds) bounds (node_children node))"
  by pat_completeness auto
termination
proof (relation "measure (\<lambda>(node, _). size node)")
  show "wf (measure (\<lambda>(node, _). size node))"
    by simp
next
  fix node child :: PositionedNode and bounds b1 b2 b3 b4 b :: Bounds
  assume "child \<in> set (node_children node)"
  then have "size child < size node"
    by (cases node) (auto simp: less_Suc_eq_le size_list_estimation')
  then show "((child, b), (node, bounds)) \<in> measure (\<lambda>(node, _). size node)"
    by simp
qed

declare getTreeBounds.simps [simp del]

section \<open>addChild\<close>

text \<open>
  The closure \<^verbatim>\<open>addChild\<close> of \<^verbatim>\<open>addFamilyMember\<close>, lines 266 to 277; the variables
  \<^verbatim>\<open>parentId\<close> and \<^verbatim>\<open>newMember\<close> that it captures are its first two arguments here.
  \<^verbatim>\<open>===\<close> on two strings is equality of their contents.
\<close>

fun addChild :: "string \<Rightarrow> FamilyMember \<Rightarrow> FamilyMember \<Rightarrow> FamilyMember" where
  "addChild parentId newMember (FamilyMember i n cs) =
     (if i = parentId then FamilyMember i n (cs @ [newMember])
      else FamilyMember i n (map (addChild parentId newMember) cs))"

text \<open>The ids that occur in a tree.\<close>

fun member_ids :: "FamilyMember \<Rightarrow> string set" where
  "member_ids (FamilyMember i n cs) = insert i (\<Union> (member_ids ` set cs))"

section \<open>Auxiliary definitions for the proofs\<close>

text \<open>
  What the \<^verbatim>\<open>forEach\<close> loop leaves in \<^verbatim>\<open>children\<close> when it starts with
  \<^verbatim>\<open>currentX = cx\<close> and an empty array (lemma \<open>foldl_place\<close> below).
\<close>

fun slots :: "rat \<Rightarrow> rat \<Rightarrow> PositionedNode list \<Rightarrow> PositionedNode list" where
  "slots s cx [] = []"
| "slots s cx (c # cs) = set_x (cx + node_width c / 2) c # slots s (cx + node_width c + s * (1 / 2)) cs"

text \<open>The array \<^verbatim>\<open>childLayouts\<close> of a call of \<^verbatim>\<open>layoutTree\<close>.\<close>

definition child_layouts :: "FamilyMember \<Rightarrow> rat \<Rightarrow> rat \<Rightarrow> rat \<Rightarrow> rat \<Rightarrow> PositionedNode list" where
  "child_layouts node y level spacingX spacingY =
     map (\<lambda>(i, child).
            layoutTree child 0 (y + spacingY) (level + 1) (of_nat i)
              (of_nat (length (member_children node))) spacingX spacingY)
         (enumerate 0 (member_children node))"

text \<open>The children of a node are packed left to right, half a spacing apart at least.\<close>

definition separated :: "rat \<Rightarrow> PositionedNode \<Rightarrow> bool" where
  "separated sx n \<longleftrightarrow>
     (\<forall>j < length (node_children n). \<forall>i < j.
        node_x (node_children n ! i) + node_width (node_children n ! i) / 2 + sx / 2
          \<le> node_x (node_children n ! j) - node_width (node_children n ! j) / 2)"

text \<open>The width of a node, as the code computes it from the widths of its children.\<close>

definition width_ok :: "rat \<Rightarrow> PositionedNode \<Rightarrow> bool" where
  "width_ok sx n \<longleftrightarrow>
     node_width n =
       (if node_children n = [] then sx
        else max (sum_list (map node_width (node_children n))
                  + sx / 2 * (of_nat (length (node_children n)) - 1)) sx)"

text \<open>What \<^verbatim>\<open>getTreeBounds\<close> does to the accumulator at one node (its first four lines).\<close>

definition visit :: "PositionedNode \<Rightarrow> Bounds \<Rightarrow> Bounds" where
  "visit node bounds =
     bounds\<lparr>minX := math_min (minX bounds) (Finite (node_x node)),
            maxX := math_max (maxX bounds) (Finite (node_x node + 100)),
            minY := math_min (minY bounds) (Finite (node_y node)),
            maxY := math_max (maxY bounds) (Finite (node_y node + 80))\<rparr>"

section \<open>layoutTree on a store of objects\<close>

text \<open>
  \<^verbatim>\<open>layoutTree\<close> writes to objects: \<^verbatim>\<open>childLayout.x = ...\<close> and \<^verbatim>\<open>children.push(...)\<close>.
  To say which objects it writes to, this second model of the same function keeps the
  objects in a store. An address is an index into the store; a new object goes to the end
  of the store, and no object is ever removed. An object is a \<^verbatim>\<open>FamilyMember\<close>
  (\<^verbatim>\<open>id\<close>, \<^verbatim>\<open>name\<close>, the address of the array \<^verbatim>\<open>children\<close>), an object returned by
  \<^verbatim>\<open>layoutTree\<close> (\<^verbatim>\<open>id\<close>, \<^verbatim>\<open>name\<close>, \<^verbatim>\<open>x\<close>, \<^verbatim>\<open>y\<close>, \<^verbatim>\<open>width\<close>, the address of
  \<^verbatim>\<open>children\<close>), or an array of addresses.
\<close>

type_synonym addr = nat

datatype obj =
  Member string string addr
| Positioned string string rat rat rat addr
| Array "addr list"

type_synonym store = "obj list"

definition alloc :: "obj \<Rightarrow> store \<Rightarrow> addr \<times> store" where
  "alloc v s = (length s, s @ [v])"

definition lookup :: "store \<Rightarrow> addr \<Rightarrow> obj option" where
  "lookup s a = (if a < length s then Some (s ! a) else None)"

text \<open>
  Reading and writing fields. A read or write of a field that the object at that address
  does not have is \<open>None\<close>: the model stops there.
\<close>

definition get_member :: "store \<Rightarrow> addr \<Rightarrow> (string \<times> string \<times> addr) option" where
  "get_member s a = (case lookup s a of Some (Member i n c) \<Rightarrow> Some (i, n, c) | _ \<Rightarrow> None)"

definition get_array :: "store \<Rightarrow> addr \<Rightarrow> addr list option" where
  "get_array s a = (case lookup s a of Some (Array as) \<Rightarrow> Some as | _ \<Rightarrow> None)"

definition get_x :: "store \<Rightarrow> addr \<Rightarrow> rat option" where
  "get_x s a = (case lookup s a of Some (Positioned i n x y w c) \<Rightarrow> Some x | _ \<Rightarrow> None)"

definition get_width :: "store \<Rightarrow> addr \<Rightarrow> rat option" where
  "get_width s a = (case lookup s a of Some (Positioned i n x y w c) \<Rightarrow> Some w | _ \<Rightarrow> None)"

text \<open>\<^verbatim>\<open>obj.x = v\<close> on the object at address \<open>a\<close>.\<close>

definition put_x :: "addr \<Rightarrow> rat \<Rightarrow> store \<Rightarrow> store option" where
  "put_x a v s =
     (case lookup s a of Some (Positioned i n x y w c) \<Rightarrow> Some (s[a := Positioned i n v y w c])
      | _ \<Rightarrow> None)"

text \<open>\<^verbatim>\<open>arr.push(a)\<close> on the array at address \<open>arr\<close>.\<close>

definition push :: "addr \<Rightarrow> addr \<Rightarrow> store \<Rightarrow> store option" where
  "push arr a s =
     (case lookup s arr of Some (Array as) \<Rightarrow> Some (s[arr := Array (as @ [a])]) | _ \<Rightarrow> None)"

text \<open>\<^verbatim>\<open>arr[k]\<close>, for \<open>k\<close> within the array.\<close>

definition element :: "addr list \<Rightarrow> nat \<Rightarrow> addr option" where
  "element as k = (if k < length as then Some (as ! k) else None)"

text \<open>
  \<^verbatim>\<open>arr.map(f)\<close> where the callback \<open>f\<close> works on the store: the calls happen from left to
  right, each in the store the previous one left. The elements of the array are read when
  the loop starts.
\<close>

fun map_store :: "('a \<Rightarrow> store \<Rightarrow> ('b \<times> store) option) \<Rightarrow> 'a list \<Rightarrow> store \<Rightarrow> ('b list \<times> store) option" where
  "map_store f [] s = Some ([], s)"
| "map_store f (a # as) s =
     do { (b, s) \<leftarrow> f a s; (bs, s) \<leftarrow> map_store f as s; Some (b # bs, s) }"

text \<open>\<^verbatim>\<open>childLayouts.reduce((sum, c) => sum + c.width, acc)\<close>.\<close>

fun reduce_width :: "store \<Rightarrow> rat \<Rightarrow> addr list \<Rightarrow> rat option" where
  "reduce_width s acc [] = Some acc"
| "reduce_width s acc (c # cs) = do { w \<leftarrow> get_width s c; reduce_width s (acc + w) cs }"

text \<open>
  The \<^verbatim>\<open>forEach\<close> of lines 113 to 117 on the store; \<open>children\<close> is the address of the
  array \<^verbatim>\<open>children\<close>.
\<close>

fun forEach_place :: "rat \<Rightarrow> addr \<Rightarrow> rat \<Rightarrow> addr list \<Rightarrow> store \<Rightarrow> (rat \<times> store) option" where
  "forEach_place spacingX children currentX [] s = Some (currentX, s)"
| "forEach_place spacingX children currentX (childLayout # rest) s =
     do { w \<leftarrow> get_width s childLayout;
          s \<leftarrow> put_x childLayout (currentX + w / 2) s;
          s \<leftarrow> push children childLayout s;
          w \<leftarrow> get_width s childLayout;
          forEach_place spacingX children (currentX + w + spacingX * (1 / 2)) rest s }"

text \<open>
  \<^verbatim>\<open>layoutTree\<close> on the store, lines 90 to 130. The recursion follows the objects in the
  store, where nothing excludes a cycle, so the function takes fuel: the number of nested
  calls it may make. Without fuel left the result is \<open>None\<close>, as it is when a read fails.
  \<^verbatim>\<open>let children = []\<close> and \<^verbatim>\<open>map\<close> allocate an array each, and the object literal
  \<^verbatim>\<open>{ ...node, x, y, width, children }\<close> allocates the result, with \<^verbatim>\<open>id\<close> and \<^verbatim>\<open>name\<close>
  read from \<^verbatim>\<open>node\<close> at that moment and the field \<^verbatim>\<open>children\<close> of \<^verbatim>\<open>node\<close> overridden.
\<close>

fun layoutTree_store ::
  "nat \<Rightarrow> addr \<Rightarrow> rat \<Rightarrow> rat \<Rightarrow> rat \<Rightarrow> rat \<Rightarrow> rat \<Rightarrow> rat \<Rightarrow> rat \<Rightarrow> store \<Rightarrow> (addr \<times> store) option" where
  "layoutTree_store 0 node x y level siblingIndex siblingsCount spacingX spacingY s = None"
| "layoutTree_store (Suc fuel) node x y level siblingIndex siblingsCount spacingX spacingY s =
     do { let (children, s) = alloc (Array []) s;
          (_, _, node_children) \<leftarrow> get_member s node;
          kids \<leftarrow> get_array s node_children;
          if length kids > 0 then
            do { (ls, s) \<leftarrow>
                   map_store (\<lambda>(i, child).
                      layoutTree_store fuel child 0 (y + spacingY) (level + 1) (of_nat i)
                        (of_nat (length kids)) spacingX spacingY)
                     (enumerate 0 kids) s;
                 let (childLayouts, s) = alloc (Array ls) s;
                 totalChildrenWidth \<leftarrow> reduce_width s 0 ls;
                 let totalSpacing = spacingX * (1 / 2) * (of_nat (length ls) - 1);
                 let width = max (totalChildrenWidth + totalSpacing) spacingX;
                 (currentX, s) \<leftarrow> forEach_place spacingX children (x - width / 2) ls s;
                 cs \<leftarrow> get_array s children;
                 first \<leftarrow> element cs 0;
                 x \<leftarrow> (if length cs = 1 then get_x s first
                       else do { last \<leftarrow> element cs (length cs - 1);
                                 a \<leftarrow> get_x s first;
                                 b \<leftarrow> get_x s last;
                                 Some ((a + b) / 2) });
                 (i, n, _) \<leftarrow> get_member s node;
                 Some (alloc (Positioned i n x y width children) s) }
          else
            do { (i, n, _) \<leftarrow> get_member s node;
                 Some (alloc (Positioned i n x y spacingX children) s) } }"

text \<open>
  \<open>stored s a t\<close>: the store \<open>s\<close> holds the tree \<open>t\<close> of \<^verbatim>\<open>FamilyMember\<close> objects at
  address \<open>a\<close>.
\<close>

fun stored :: "store \<Rightarrow> addr \<Rightarrow> FamilyMember \<Rightarrow> bool"
  and stored_list :: "store \<Rightarrow> addr list \<Rightarrow> FamilyMember list \<Rightarrow> bool" where
  "stored s a (FamilyMember i n cs) =
     (case lookup s a of
        Some (Member i' n' c) \<Rightarrow>
          i' = i \<and> n' = n \<and>
          (case lookup s c of Some (Array as) \<Rightarrow> stored_list s as cs | _ \<Rightarrow> False)
      | _ \<Rightarrow> False)"
| "stored_list s [] [] = True"
| "stored_list s (a # as) (c # cs) = (stored s a c \<and> stored_list s as cs)"
| "stored_list s _ _ = False"

text \<open>
  \<open>positioned lo s a p\<close>: the store \<open>s\<close> holds the positioned tree \<open>p\<close> at address \<open>a\<close>, in
  objects and arrays whose addresses all lie between \<open>lo\<close> and \<open>a\<close>: the array of the
  children of \<open>a\<close> at some \<open>c\<close> with \<open>lo \<le> c < a\<close>, then the subtrees of the children one
  after the other between \<open>c\<close> and \<open>a\<close> (\<open>positioned_seq\<close>), the way \<open>layoutTree_store\<close>
  allocates them. So no part of \<open>p\<close> is at an address below \<open>lo\<close>, and no object is part of
  two subtrees.
\<close>

fun positioned :: "addr \<Rightarrow> store \<Rightarrow> addr \<Rightarrow> PositionedNode \<Rightarrow> bool"
  and positioned_seq :: "addr \<Rightarrow> store \<Rightarrow> addr list \<Rightarrow> PositionedNode list \<Rightarrow> addr \<Rightarrow> bool" where
  "positioned lo s a (PositionedNode i n x y w ps) =
     (case lookup s a of
        Some (Positioned i' n' x' y' w' c) \<Rightarrow>
          i' = i \<and> n' = n \<and> x' = x \<and> y' = y \<and> w' = w \<and> lo \<le> c \<and> c < a \<and>
          (case lookup s c of Some (Array as) \<Rightarrow> positioned_seq (Suc c) s as ps a | _ \<Rightarrow> False)
      | _ \<Rightarrow> False)"
| "positioned_seq lo s [] [] hi = True"
| "positioned_seq lo s (a # as) (p # ps) hi =
     (a < hi \<and> positioned lo s a p \<and> positioned_seq (Suc a) s as ps hi)"
| "positioned_seq lo s _ _ hi = False"

declare stored.simps [simp del] positioned.simps [simp del]

text \<open>The number of nested calls that \<open>layoutTree\<close> makes on a tree.\<close>

fun height :: "FamilyMember \<Rightarrow> nat" where
  "height (FamilyMember i n cs) = Suc (fold max (map height cs) 0)"

text \<open>
  What the proof shows for every tree, by induction on the fuel: the call returns, keeps
  the old store as an initial segment of the new one, and builds the tree of the
  functional model in new objects.
\<close>

definition lays :: "nat \<Rightarrow> rat \<Rightarrow> rat \<Rightarrow> FamilyMember \<Rightarrow> bool" where
  "lays fuel sx sy t \<longleftrightarrow>
     (\<forall>node s x y level si sc. stored s node t \<longrightarrow>
        (\<exists>a' s'. layoutTree_store fuel node x y level si sc sx sy s = Some (a', s')
           \<and> prefix s s'
           \<and> positioned (length s) s' a' (layoutTree t x y level si sc sx sy)))"

text \<open>
  A store with a root \<open>r\<close> at address 5 and its two childless children \<open>a\<close> and \<open>b\<close>.
\<close>

definition example_store :: store where
  "example_store =
     [Array [], Member ''a'' ''A'' 0, Array [], Member ''b'' ''B'' 2, Array [1, 3], Member ''r'' ''R'' 4]"

section \<open>Double precision\<close>

text \<open>
  The arithmetic of the code is that of IEEE 754 binary64: the exact result of every
  operation is rounded to the nearest double, a tie going to the double with the even
  significand. \<open>round_double\<close> is that rounding on the rationals. \<open>bits n\<close> is the number of
  binary digits of \<open>n\<close>, and \<open>exponent a\<close>, for \<open>a > 0\<close>, is the \<open>e\<close> with
  \<open>2 ^ e \<le> a < 2 ^ (e + 1)\<close>. Doubles in that range are the multiples of \<open>2 ^ (e - 52)\<close> (53
  significant bits); below \<open>2 ^ (- 1022)\<close> they are the multiples of \<open>2 ^ (- 1074)\<close>. The two zeros
  of the doubles are not told apart, and there is no infinity and no NaN: where the code
  gets \<^verbatim>\<open>Infinity\<close>, for a result beyond the largest double, \<open>round_double\<close> goes on with
  ever larger multiples. The theorems below use it on doubles only (\<open>is_double\<close>) and at
  explicit inputs.
\<close>

function bits :: "int \<Rightarrow> int" where
  "bits n = (if n \<le> 0 then 0 else 1 + bits (n div 2))"
  by pat_completeness auto
termination
  by (relation "measure nat") auto

declare bits.simps [simp del]

definition exponent :: "rat \<Rightarrow> int" where
  "exponent a = (if 1 \<le> a then bits \<lfloor>a\<rfloor> - 1 else - bits (\<lceil>1 / a\<rceil> - 1))"

text \<open>\<open>2 ^ e\<close> for an integer \<open>e\<close>.\<close>

definition pow2 :: "int \<Rightarrow> rat" where
  "pow2 e = (if 0 \<le> e then 2 ^ nat e else 1 / 2 ^ nat (- e))"

text \<open>The integer nearest to \<open>q\<close>; halfway between two integers, the even one.\<close>

definition round_half_even :: "rat \<Rightarrow> int" where
  "round_half_even q =
     (let f = \<lfloor>q\<rfloor>; d = q - of_int f
      in if d < 1 / 2 then f else if 1 / 2 < d then f + 1 else if even f then f else f + 1)"

definition round_double :: "rat \<Rightarrow> rat" where
  "round_double r =
     (if r = 0 then 0
      else let ulp = pow2 (max (exponent \<bar>r\<bar>) (- 1022) - 52)
           in of_int (round_half_even (r / ulp)) * ulp)"

text \<open>
  What it is for a rational to be a (finite) double: the rounding leaves it as it is, and
  its exponent is at most 1023 (the largest double is \<open>(2 ^ 53 - 1) * 2 ^ 971\<close>). Whenever
  the rounded result is a double in this sense, \<open>round_double\<close> is the rounding of the code;
  \<open>is_double\<close> for the exact result of an operation says that the operation does not
  round.
\<close>

definition is_double :: "rat \<Rightarrow> bool" where
  "is_double v \<longleftrightarrow> round_double v = v \<and> (v = 0 \<or> exponent \<bar>v\<bar> \<le> 1023)"

section \<open>layoutTree with rounding\<close>

text \<open>
  The same function as \<open>layoutTree\<close>, with the rounding \<open>fl\<close> applied to the exact result of
  every \<^verbatim>\<open>+\<close>, \<^verbatim>\<open>-\<close>, \<^verbatim>\<open>*\<close> and \<^verbatim>\<open>/\<close> of the source, in the order in which the source
  evaluates them; \<^verbatim>\<open>Math.max\<close> and the conversion of an array length or index do not round.
  The code is \<open>layoutTree_fl round_double\<close>. One round of the \<^verbatim>\<open>forEach\<close>:
  \<^verbatim>\<open>
    childLayout.x = currentX + childLayout.width / 2;
    children.push(childLayout);
    currentX += childLayout.width + spacingX * 0.5;
  \<close>
\<close>

fun place_fl :: "(rat \<Rightarrow> rat) \<Rightarrow> rat \<Rightarrow> rat \<times> PositionedNode list \<Rightarrow> PositionedNode \<Rightarrow> rat \<times> PositionedNode list" where
  "place_fl fl spacingX (currentX, children) childLayout =
     (fl (currentX + fl (node_width childLayout + fl (spacingX * (1 / 2)))),
      children @ [set_x (fl (currentX + fl (node_width childLayout / 2))) childLayout])"

text \<open>Lines 90 to 130, each operation rounded.\<close>

function layoutTree_fl ::
  "(rat \<Rightarrow> rat) \<Rightarrow> FamilyMember \<Rightarrow> rat \<Rightarrow> rat \<Rightarrow> rat \<Rightarrow> rat \<Rightarrow> rat \<Rightarrow> rat \<Rightarrow> rat \<Rightarrow> PositionedNode" where
  "layoutTree_fl fl node x y level siblingIndex siblingsCount spacingX spacingY =
     (if length (member_children node) > 0 then
        let childLayouts =
              map (\<lambda>(i, child).
                     layoutTree_fl fl child 0 (fl (y + spacingY)) (fl (level + 1)) (of_nat i)
                       (of_nat (length (member_children node))) spacingX spacingY)
                  (enumerate 0 (member_children node));
            totalChildrenWidth = foldl (\<lambda>sum c. fl (sum + node_width c)) 0 childLayouts;
            totalSpacing = fl (fl (spacingX * (1 / 2)) * fl (of_nat (length childLayouts) - 1));
            width = max (fl (totalChildrenWidth + totalSpacing)) spacingX;
            (currentX, children) =
              foldl (place_fl fl spacingX) (fl (x - fl (width / 2)), []) childLayouts;
            x' = (if length children = 1 then node_x (children ! 0)
                  else fl (fl (node_x (children ! 0) + node_x (children ! (length children - 1))) / 2))
        in PositionedNode (member_id node) (member_name node) x' y width children
      else PositionedNode (member_id node) (member_name node) x y spacingX [])"
  by pat_completeness auto
termination
proof (relation "measure (\<lambda>(fl, node, _). size node)")
  show "wf (measure (\<lambda>(fl, node, _). size node))"
    by simp
next
  fix fl :: "rat \<Rightarrow> rat" and node :: FamilyMember
    and x y level siblingIndex siblingsCount spacingX spacingY :: rat
    and p :: "nat \<times> FamilyMember" and i child
  assume "p \<in> set (enumerate 0 (member_children node))" and "(i, child) = p"
  then have "child \<in> set (member_children node)"
    by (auto simp: in_set_enumerate_eq)
  then have "size child < size node"
    by (cases node) (auto simp: less_Suc_eq_le size_list_estimation')
  then show "((fl, child, 0, fl (y + spacingY), fl (level + 1), of_nat i,
               of_nat (length (member_children node)), spacingX, spacingY),
              (fl, node, x, y, level, siblingIndex, siblingsCount, spacingX, spacingY))
             \<in> measure (\<lambda>(fl, node, _). size node)"
    by simp
qed

declare layoutTree_fl.simps [simp del]

text \<open>
  The exact results of all the operations of a call of \<open>layoutTree\<close>, in exact arithmetic:
  the partial sums of the \<^verbatim>\<open>reduce\<close>, the values of the \<^verbatim>\<open>forEach\<close>, and with them those
  of the calls for the children. When the rounding leaves every one of them as it is, no
  operation of the rounded layout rounds, and the rounded layout is the exact one (lemma
  \<open>layoutTree_fl_exact\<close>).
\<close>

fun sum_values :: "rat \<Rightarrow> rat list \<Rightarrow> rat list" where
  "sum_values a [] = []"
| "sum_values a (w # ws) = (a + w) # sum_values (a + w) ws"

fun place_values :: "rat \<Rightarrow> rat \<Rightarrow> PositionedNode list \<Rightarrow> rat list" where
  "place_values s cx [] = []"
| "place_values s cx (c # cs) =
     [node_width c / 2, cx + node_width c / 2,
      s * (1 / 2), node_width c + s * (1 / 2), cx + (node_width c + s * (1 / 2))]
     @ place_values s (cx + (node_width c + s * (1 / 2))) cs"

fun layout_values :: "FamilyMember \<Rightarrow> rat \<Rightarrow> rat \<Rightarrow> rat \<Rightarrow> rat \<Rightarrow> rat list" where
  "layout_values (FamilyMember i n cs) x y spacingX spacingY =
     (if cs = [] then []
      else
        let childLayouts = map (\<lambda>child. layoutTree child 0 (y + spacingY) 0 0 0 spacingX spacingY) cs;
            totalChildrenWidth = sum_list (map node_width childLayouts);
            totalSpacing = spacingX * (1 / 2) * (of_nat (length cs) - 1);
            width = max (totalChildrenWidth + totalSpacing) spacingX;
            children = slots spacingX (x - width / 2) childLayouts;
            first = node_x (children ! 0);
            last = node_x (children ! (length cs - 1))
        in [y + spacingY]
           @ concat (map (\<lambda>child. layout_values child 0 (y + spacingY) spacingX spacingY) cs)
           @ sum_values 0 (map node_width childLayouts)
           @ [spacingX * (1 / 2), of_nat (length cs) - 1, totalSpacing,
              totalChildrenWidth + totalSpacing, width / 2, x - width / 2]
           @ place_values spacingX (x - width / 2) childLayouts
           @ (if length cs = 1 then [] else [first + last, (first + last) / 2]))"

text \<open>The store that the call of \<open>layoutTree\<close> on \<open>example_store\<close> leaves.\<close>

definition example_store_after :: store where
  "example_store_after =
     [Array [], Member ''a'' ''A'' 0, Array [], Member ''b'' ''B'' 2, Array [1, 3],
      Member ''r'' ''R'' 4, Array [8, 10], Array [], Positioned ''a'' ''A'' (- 135) 240 180 7,
      Array [], Positioned ''b'' ''B'' 135 240 180 9, Array [8, 10],
      Positioned ''r'' ''R'' 0 80 450 6]"

section \<open>Lemmas about the layout\<close>

lemma layoutTree_leaf:
  "layoutTree (FamilyMember i n []) x y level siblingIndex siblingsCount spacingX spacingY =
     PositionedNode i n x y spacingX []"
  by (simp add: layoutTree.simps)

lemma set_x_sel [simp]:
  "node_x (set_x v c) = v" "node_y (set_x v c) = node_y c" "node_width (set_x v c) = node_width c"
  "node_children (set_x v c) = node_children c" "node_id (set_x v c) = node_id c"
  "node_name (set_x v c) = node_name c"
  by (cases c; simp)+

lemma foldl_place:
  "foldl (place s) (cx, acc) ls =
     (cx + (\<Sum>c\<leftarrow>ls. node_width c + s * (1 / 2)), acc @ slots s cx ls)"
  by (induction ls arbitrary: cx acc) (simp_all add: algebra_simps)

lemma foldl_width_sum:
  "foldl (\<lambda>sum c. sum + node_width c) a ls = a + sum_list (map node_width ls)"
  by (induction ls arbitrary: a) simp_all

lemma length_slots [simp]: "length (slots s cx cs) = length cs"
  by (induction cs arbitrary: cx) simp_all

lemma slots_set: "c' \<in> set (slots s cx cs) \<Longrightarrow> \<exists>v c. c \<in> set cs \<and> c' = set_x v c"
  by (induction cs arbitrary: cx) (simp, fastforce)

lemma map_width_slots [simp]: "map node_width (slots s cx cs) = map node_width cs"
  by (induction cs arbitrary: cx) simp_all

lemma layoutTree_node:
  assumes "member_children node \<noteq> []"
  shows "layoutTree node x y level siblingIndex siblingsCount spacingX spacingY =
     (let childLayouts = child_layouts node y level spacingX spacingY;
          width = max (sum_list (map node_width childLayouts)
                       + spacingX * (1 / 2) * (of_nat (length childLayouts) - 1)) spacingX;
          children = slots spacingX (x - width / 2) childLayouts
      in PositionedNode (member_id node) (member_name node)
           (if length children = 1 then node_x (children ! 0)
            else (node_x (children ! 0) + node_x (children ! (length children - 1))) / 2)
           y width children)"
  using assms
  by (subst layoutTree.simps)
     (simp add: Let_def foldl_place foldl_width_sum child_layouts_def)

lemma length_child_layouts [simp]:
  "length (child_layouts node y level sx sy) = length (member_children node)"
  by (simp add: child_layouts_def)

lemma child_layouts_set:
  "c \<in> set (child_layouts node y level sx sy) \<Longrightarrow>
   \<exists>child si sc. child \<in> set (member_children node) \<and> c = layoutTree child 0 (y + sy) (level + 1) si sc sx sy"
proof -
  assume "c \<in> set (child_layouts node y level sx sy)"
  then obtain i where i: "i < length (member_children node)"
    and c: "c = layoutTree (member_children node ! i) 0 (y + sy) (level + 1) (of_nat i)
                  (of_nat (length (member_children node))) sx sy"
    by (auto simp: child_layouts_def in_set_enumerate_eq)
  from i have "member_children node ! i \<in> set (member_children node)"
    by simp
  with c show ?thesis
    by blast
qed

lemma nodes_unfold: "nodes c = c # concat (map nodes (node_children c))"
  by (cases c) simp

lemma layoutTree_children:
  "node_children (layoutTree node x y level si sc sx sy) =
     (if member_children node = [] then []
      else slots sx (x - node_width (layoutTree node x y level si sc sx sy) / 2)
             (child_layouts node y level sx sy))"
proof (cases "member_children node = []")
  case True
  then show ?thesis by (simp add: layoutTree.simps [of node])
next
  case False
  then show ?thesis by (simp add: layoutTree_node Let_def)
qed

lemma layoutTree_width:
  "node_width (layoutTree node x y level si sc sx sy) =
     (if member_children node = [] then sx
      else max (sum_list (map node_width (child_layouts node y level sx sy))
                + sx * (1 / 2) * (of_nat (length (member_children node)) - 1)) sx)"
proof (cases "member_children node = []")
  case True
  then show ?thesis by (simp add: layoutTree.simps [of node])
next
  case False
  then show ?thesis by (simp add: layoutTree_node Let_def)
qed

lemma layoutTree_y [simp]: "node_y (layoutTree node x y level si sc sx sy) = y"
proof (cases "member_children node = []")
  case True
  then show ?thesis by (simp add: layoutTree.simps [of node])
next
  case False
  then show ?thesis by (simp add: layoutTree_node Let_def)
qed

lemma layoutTree_all_nodes:
  assumes root: "\<And>t x y level si sc. P (layoutTree t x y level si sc sx sy)"
    and inv: "\<And>v c. P c \<Longrightarrow> P (set_x v c)"
  shows "n \<in> set (nodes (layoutTree t x y level si sc sx sy)) \<Longrightarrow> P n"
proof (induction t arbitrary: x y level si sc n rule: measure_induct_rule [where f = size])
  case (less t)
  let ?r = "layoutTree t x y level si sc sx sy"
  from less.prems have "n = ?r \<or> (\<exists>c' \<in> set (node_children ?r). n \<in> set (nodes c'))"
    by (subst (asm) nodes_unfold) auto
  then show ?case
  proof
    assume "n = ?r"
    then show ?thesis by (simp add: root)
  next
    assume "\<exists>c' \<in> set (node_children ?r). n \<in> set (nodes c')"
    then obtain c' where c': "c' \<in> set (node_children ?r)" and n: "n \<in> set (nodes c')"
      by blast
    from c' have ne: "member_children t \<noteq> []"
      by (auto simp: layoutTree_children split: if_splits)
    with c' obtain v c where c: "c \<in> set (child_layouts t y level sx sy)" and c'_eq: "c' = set_x v c"
      by (auto simp: layoutTree_children dest: slots_set)
    from c obtain child si' sc' where child: "child \<in> set (member_children t)"
      and c_eq: "c = layoutTree child 0 (y + sy) (level + 1) si' sc' sx sy"
      by (blast dest: child_layouts_set)
    from child have sz: "size child < size t"
      by (cases t) (auto simp: less_Suc_eq_le size_list_estimation')
    have "set (nodes (set_x v c)) \<subseteq> insert (set_x v c) (set (nodes c))"
      by (cases c) auto
    with n c'_eq have "n = set_x v c \<or> n \<in> set (nodes c)"
      by auto
    then show ?thesis
    proof
      assume "n = set_x v c"
      then show ?thesis using c_eq by (simp add: root inv)
    next
      assume "n \<in> set (nodes c)"
      then show ?thesis unfolding c_eq by (rule less.IH [OF sz])
    qed
  qed
qed

lemma slots_x:
  "i < length cs \<Longrightarrow>
   node_x (slots s cx cs ! i) =
     cx + (\<Sum>c\<leftarrow>take i cs. node_width c + s * (1 / 2)) + node_width (cs ! i) / 2"
proof (induction cs arbitrary: cx i)
  case Nil
  then show ?case by simp
next
  case (Cons c cs)
  show ?case
  proof (cases i)
    case 0
    then show ?thesis by simp
  next
    case (Suc k)
    with Cons.prems have "k < length cs" by simp
    from Cons.IH [OF this] Suc show ?thesis by (simp add: algebra_simps)
  qed
qed

lemma slots_width: "i < length cs \<Longrightarrow> node_width (slots s cx cs ! i) = node_width (cs ! i)"
  using map_width_slots [of s cx cs] by (metis length_slots nth_map)

lemma take_sum_step:
  assumes "i < j" "j \<le> length cs" "\<And>c. c \<in> set cs \<Longrightarrow> 0 \<le> f c"
  shows "(\<Sum>c\<leftarrow>take i cs. f c) + f (cs ! i) \<le> (\<Sum>c\<leftarrow>take j cs. (f c :: rat))"
proof -
  from assms(1,2) have i: "i < length cs" by simp
  have "take j cs = take (Suc i) cs @ take (j - Suc i) (drop (Suc i) cs)"
    using assms(1) by (metis Suc_leI le_add_diff_inverse take_add)
  moreover have "0 \<le> (\<Sum>c\<leftarrow>take (j - Suc i) (drop (Suc i) cs). f c)"
    by (rule sum_list_nonneg) (auto dest!: in_set_takeD in_set_dropD intro: assms(3))
  ultimately show ?thesis
    using i by (simp add: take_Suc_conv_app_nth)
qed

lemma slots_separated:
  assumes "i < j" "j < length cs" "0 \<le> s" "\<And>c. c \<in> set cs \<Longrightarrow> 0 \<le> node_width c"
  shows "node_x (slots s cx cs ! i) + node_width (cs ! i) / 2 + s / 2
           \<le> node_x (slots s cx cs ! j) - node_width (cs ! j) / 2"
proof -
  from assms(1,2) have i: "i < length cs" by simp
  have "(\<Sum>c\<leftarrow>take i cs. node_width c + s * (1 / 2)) + (node_width (cs ! i) + s * (1 / 2))
          \<le> (\<Sum>c\<leftarrow>take j cs. node_width c + s * (1 / 2))"
    using assms by (intro take_sum_step) auto
  then show ?thesis
    using slots_x [OF i, of s cx] slots_x [OF assms(2), of s cx] by simp
qed

lemma layoutTree_width_ge: "sx \<le> node_width (layoutTree node x y level si sc sx sy)"
  by (simp add: layoutTree_width)

lemma child_layouts_width_ge:
  "c \<in> set (child_layouts node y level sx sy) \<Longrightarrow> sx \<le> node_width c"
  by (auto dest!: child_layouts_set simp: layoutTree_width_ge)

lemma layoutTree_root_separated:
  assumes "0 < sx" "i < j" "j < length (node_children (layoutTree t x y level si sc sx sy))"
  shows "node_x (node_children (layoutTree t x y level si sc sx sy) ! i)
           + node_width (node_children (layoutTree t x y level si sc sx sy) ! i) / 2 + sx / 2
         \<le> node_x (node_children (layoutTree t x y level si sc sx sy) ! j)
           - node_width (node_children (layoutTree t x y level si sc sx sy) ! j) / 2"
proof -
  let ?cl = "child_layouts t y level sx sy"
  from assms(3) have ne: "member_children t \<noteq> []"
    by (auto simp: layoutTree_children split: if_splits)
  with assms have j: "j < length ?cl" and i: "i < length ?cl"
    by (simp_all add: layoutTree_children)
  have nonneg: "\<And>c. c \<in> set ?cl \<Longrightarrow> 0 \<le> node_width c"
    using child_layouts_width_ge assms(1) by fastforce
  show ?thesis
    using slots_separated [OF assms(2) j, of sx, OF _ nonneg] assms(1) ne i j
    by (simp add: layoutTree_children slots_width)
qed

lemma layoutTree_nodes_separated:
  assumes "0 < sx" "n \<in> set (nodes (layoutTree t x y level si sc sx sy))"
  shows "separated sx n"
  using assms(2)
proof (rule layoutTree_all_nodes [where P = "separated sx", rotated 2])
  fix t x y level si sc
  show "separated sx (layoutTree t x y level si sc sx sy)"
    unfolding separated_def using layoutTree_root_separated [OF assms(1)] by blast
next
  fix v c
  assume "separated sx c"
  then show "separated sx (set_x v c)"
    by (simp add: separated_def)
qed

lemma slots_eq_Nil [simp]: "slots s cx cs = [] \<longleftrightarrow> cs = []"
  by (cases cs) simp_all

lemma child_layouts_eq_Nil [simp]:
  "child_layouts node y level sx sy = [] \<longleftrightarrow> member_children node = []"
  using length_child_layouts [of node y level sx sy] by (metis length_0_conv)

lemma layoutTree_root_width_ok: "width_ok sx (layoutTree t x y level si sc sx sy)"
  by (simp add: width_ok_def layoutTree_children layoutTree_width)

lemma layoutTree_nodes_width_ok:
  assumes "n \<in> set (nodes (layoutTree t x y level si sc sx sy))"
  shows "width_ok sx n"
  using assms
proof (rule layoutTree_all_nodes [where P = "width_ok sx", rotated 2])
  fix v c
  assume "width_ok sx c"
  then show "width_ok sx (set_x v c)"
    by (simp add: width_ok_def)
qed (rule layoutTree_root_width_ok)

lemma nodes_at_set_x:
  "n \<in> set (nodes_at d (set_x v c)) \<Longrightarrow> \<exists>n' \<in> set (nodes_at d c). node_y n = node_y n'"
  by (cases d) auto

lemma layoutTree_two_leaves:
  "layoutTree (FamilyMember i n [FamilyMember i1 n1 [], FamilyMember i2 n2 []])
       0 80 level siblingIndex siblingsCount 180 160 =
     PositionedNode i n 0 80 450
       [PositionedNode i1 n1 (- 135) 240 180 [], PositionedNode i2 n2 135 240 180 []]"
  by (simp add: layoutTree.simps [of "FamilyMember i n [FamilyMember i1 n1 [], FamilyMember i2 n2 []]"]
        layoutTree_leaf enumerate_eq_zip upt_rec)

lemma visit_Finite:
  "visit n \<lparr>minX = Finite a, maxX = Finite b, minY = Finite c, maxY = Finite d\<rparr> =
     \<lparr>minX = Finite (min a (node_x n)), maxX = Finite (max b (node_x n + 100)),
      minY = Finite (min c (node_y n)), maxY = Finite (max d (node_y n + 80))\<rparr>"
  by (simp add: visit_def)

lemma visit_default:
  "visit n default_bounds =
     \<lparr>minX = Finite (node_x n), maxX = Finite (node_x n + 100),
      minY = Finite (node_y n), maxY = Finite (node_y n + 80)\<rparr>"
  by (simp add: visit_def default_bounds_def)

lemma getTreeBounds_unfold:
  "getTreeBounds node bounds =
     foldl (\<lambda>bounds child. getTreeBounds child bounds) (visit node bounds) (node_children node)"
  by (subst getTreeBounds.simps) (simp add: visit_def Let_def)

lemma foldl_fold_nodes:
  assumes "\<And>c b. c \<in> set cs \<Longrightarrow> g c b = fold visit (nodes c) b"
  shows "foldl (\<lambda>b c. g c b) b cs = fold visit (concat (map nodes cs)) b"
  using assms by (induction cs arbitrary: b) simp_all

lemma getTreeBounds_fold: "getTreeBounds node bounds = fold visit (nodes node) bounds"
proof (induction node arbitrary: bounds)
  case (PositionedNode i n x y w cs)
  have "foldl (\<lambda>b c. getTreeBounds c b) b cs = fold visit (concat (map nodes cs)) b" for b
    by (rule foldl_fold_nodes) (rule PositionedNode.IH)
  then show ?case
    by (subst getTreeBounds_unfold) simp
qed

lemma fold_visit_Finite:
  "fold visit ns \<lparr>minX = Finite a, maxX = Finite b, minY = Finite c, maxY = Finite d\<rparr> =
     \<lparr>minX = Finite (Min (insert a (node_x ` set ns))),
      maxX = Finite (Max (insert b ((\<lambda>n. node_x n + 100) ` set ns))),
      minY = Finite (Min (insert c (node_y ` set ns))),
      maxY = Finite (Max (insert d ((\<lambda>n. node_y n + 80) ` set ns)))\<rparr>"
proof (induction ns arbitrary: a b c d)
  case Nil
  then show ?case by simp
next
  case (Cons n ns)
  have min_ins: "Min (insert (min u v) S) = Min (insert u (insert v S))" if "finite S" for u v :: rat and S
    using that by (cases "S = {}") (simp_all add: min.assoc)
  have max_ins: "Max (insert (max u v) S) = Max (insert u (insert v S))" if "finite S" for u v :: rat and S
    using that by (cases "S = {}") (simp_all add: max.assoc)
  show ?case
    by (simp add: visit_Finite Cons.IH min_ins max_ins)
qed

lemma layoutTree_aux_args:
  "layoutTree t x y l1 i1 c1 sx sy = layoutTree t x y l2 i2 c2 sx sy"
proof (induction t arbitrary: x y l1 i1 c1 l2 i2 c2 rule: measure_induct_rule [where f = size])
  case (less t)
  have "layoutTree child 0 (y + sy) (l1 + 1) (of_nat i) (of_nat (length (member_children t))) sx sy =
        layoutTree child 0 (y + sy) (l2 + 1) (of_nat i) (of_nat (length (member_children t))) sx sy"
    if "(i, child) \<in> set (enumerate 0 (member_children t))" for i child
  proof -
    from that have "child \<in> set (member_children t)"
      by (auto simp: in_set_enumerate_eq)
    then have "size child < size t"
      by (cases t) (auto simp: less_Suc_eq_le size_list_estimation')
    then show ?thesis
      by (rule less.IH)
  qed
  then have "child_layouts t y l1 sx sy = child_layouts t y l2 sx sy"
    unfolding child_layouts_def by (intro map_cong) auto
  then show ?case
  proof (cases "member_children t = []")
    case True
    then show ?thesis by (simp add: layoutTree.simps [of t])
  next
    case False
    with \<open>child_layouts t y l1 sx sy = child_layouts t y l2 sx sy\<close> show ?thesis
      by (simp add: layoutTree_node)
  qed
qed

lemma addChild_children:
  assumes "\<And>c. c \<in> set cs \<Longrightarrow> addChild p m c = c"
  shows "map (addChild p m) cs = cs"
  using assms by (induction cs) simp_all

lemma layoutTree_one_leaf:
  "layoutTree (FamilyMember i n [FamilyMember i1 n1 []]) 0 y level siblingIndex siblingsCount 180 160 =
     PositionedNode i n 0 y 180 [PositionedNode i1 n1 0 (y + 160) 180 []]"
  by (simp add: layoutTree.simps [of "FamilyMember i n [FamilyMember i1 n1 []]"]
        layoutTree_leaf enumerate_eq_zip upt_rec)

lemma layoutTree_root_centered:
  assumes "member_children t \<noteq> []"
  shows "node_x (layoutTree t x y level si sc sx sy) =
     (if length (node_children (layoutTree t x y level si sc sx sy)) = 1
      then node_x (node_children (layoutTree t x y level si sc sx sy) ! 0)
      else (node_x (node_children (layoutTree t x y level si sc sx sy) ! 0)
            + node_x (last (node_children (layoutTree t x y level si sc sx sy)))) / 2)"
  using assms by (simp add: layoutTree_node Let_def last_conv_nth)

subsection \<open>The store\<close>

lemma lookup_append [simp]:
  "lookup (s @ t) a = (if a < length s then lookup s a else if a < length s + length t then Some (t ! (a - length s)) else None)"
  by (auto simp: lookup_def nth_append)

lemma lookup_update [simp]:
  "lookup (s[a := v]) b = (if b = a \<and> a < length s then Some v else lookup s b)"
  by (auto simp: lookup_def)

lemma lookup_Some_less: "lookup s a = Some v \<Longrightarrow> a < length s"
  by (auto simp: lookup_def split: if_splits)

lemma prefix_lookup: "prefix s s' \<Longrightarrow> a < length s \<Longrightarrow> lookup s' a = lookup s a"
  by (auto simp: prefix_def)

lemma prefixI_lookup:
  assumes "length s \<le> length s'" "\<And>a. a < length s \<Longrightarrow> lookup s' a = lookup s a"
  shows "prefix s s'"
proof -
  have "take (length s) s' = s"
    using assms by (intro nth_equalityI) (auto simp: lookup_def split: if_splits)
  then show ?thesis
    by (metis take_is_prefix)
qed

lemma stored_iff:
  "stored s a (FamilyMember i n cs) \<longleftrightarrow>
     (\<exists>c as. lookup s a = Some (Member i n c) \<and> lookup s c = Some (Array as) \<and> stored_list s as cs)"
proof (cases "lookup s a")
  case None
  then show ?thesis by (simp add: stored.simps)
next
  case (Some v)
  show ?thesis
  proof (cases v)
    case (Member i' n' c)
    show ?thesis
    proof (cases "lookup s c")
      case None
      with Some Member show ?thesis by (simp add: stored.simps)
    next
      case (Some u)
      with \<open>lookup s a = Some v\<close> Member show ?thesis by (cases u) (auto simp: stored.simps)
    qed
  qed (use Some in \<open>simp_all add: stored.simps\<close>)
qed

lemma positioned_iff:
  "positioned lo s a (PositionedNode i n x y w ps) \<longleftrightarrow>
     (\<exists>c as. lookup s a = Some (Positioned i n x y w c) \<and> lo \<le> c \<and> c < a \<and>
        lookup s c = Some (Array as) \<and> positioned_seq (Suc c) s as ps a)"
proof (cases "lookup s a")
  case None
  then show ?thesis by (simp add: positioned.simps)
next
  case (Some v)
  show ?thesis
  proof (cases v)
    case (Positioned i' n' x' y' w' c)
    show ?thesis
    proof (cases "lookup s c")
      case None
      with Some Positioned show ?thesis by (simp add: positioned.simps)
    next
      case (Some u)
      with \<open>lookup s a = Some v\<close> Positioned show ?thesis by (cases u) (auto simp: positioned.simps)
    qed
  qed (use Some in \<open>simp_all add: positioned.simps\<close>)
qed

lemma stored_agree:
  "stored s a t \<Longrightarrow> (\<And>b. b < length s \<Longrightarrow> lookup s' b = lookup s b) \<Longrightarrow> stored s' a t"
  "stored_list s as ts \<Longrightarrow> (\<And>b. b < length s \<Longrightarrow> lookup s' b = lookup s b) \<Longrightarrow> stored_list s' as ts"
proof (induction s a t and s as ts rule: stored_stored_list.induct)
  case (1 s a i n cs)
  from "1.prems"(1) obtain c as where a: "lookup s a = Some (Member i n c)"
    and c: "lookup s c = Some (Array as)" and l: "stored_list s as cs"
    by (auto simp: stored_iff)
  from a c have "a < length s" "c < length s"
    by (auto dest: lookup_Some_less)
  with a c "1.prems"(2) have a': "lookup s' a = Some (Member i n c)" and c': "lookup s' c = Some (Array as)"
    by simp_all
  have "stored_list s' as cs"
    using a c l "1.prems"(2) by (intro "1.IH") auto
  with a' c' show ?case by (auto simp: stored_iff)
qed auto

lemma positioned_bounds:
  "positioned lo s a p \<Longrightarrow> lo < a \<and> a < length s"
  by (cases p) (auto simp: positioned_iff dest: lookup_Some_less)

lemma positioned_agree:
  "positioned lo s a p \<Longrightarrow> (\<And>b. lo \<le> b \<Longrightarrow> b \<le> a \<Longrightarrow> lookup s' b = lookup s b) \<Longrightarrow>
     positioned lo s' a p"
  "positioned_seq lo s as ps hi \<Longrightarrow> (\<And>b. lo \<le> b \<Longrightarrow> b < hi \<Longrightarrow> lookup s' b = lookup s b) \<Longrightarrow>
     positioned_seq lo s' as ps hi"
proof (induction lo s a p and lo s as ps hi rule: positioned_positioned_seq.induct)
  case (1 lo s a i n x y w ps)
  from "1.prems"(1) obtain c as where a: "lookup s a = Some (Positioned i n x y w c)"
    and b: "lo \<le> c" "c < a"
    and c: "lookup s c = Some (Array as)" and l: "positioned_seq (Suc c) s as ps a"
    by (auto simp: positioned_iff)
  from a b c "1.prems"(2) have a': "lookup s' a = Some (Positioned i n x y w c)"
    and c': "lookup s' c = Some (Array as)"
    by simp_all
  have "positioned_seq (Suc c) s' as ps a"
    using a c l b "1.prems"(2) by (intro "1.IH") auto
  with a' c' show ?case using b by (auto simp: positioned_iff)
next
  case (3 lo s a as p ps hi)
  from "3.prems"(1) have a: "a < hi" and p: "positioned lo s a p" and l: "positioned_seq (Suc a) s as ps hi"
    by simp_all
  have "positioned lo s' a p"
    using p a "3.prems"(2) by (intro "3.IH") auto
  moreover from p have "lo < a"
    by (simp add: positioned_bounds)
  then have "positioned_seq (Suc a) s' as ps hi"
    using l "3.prems"(2) by (intro "3.IH") auto
  ultimately show ?case using a by simp
qed auto

lemma positioned_weaken: "positioned lo s a p \<Longrightarrow> lo' \<le> lo \<Longrightarrow> positioned lo' s a p"
  by (cases p) (auto simp: positioned_iff)

lemma positioned_seq_weaken:
  "positioned_seq lo s as ps hi \<Longrightarrow> lo' \<le> lo \<Longrightarrow> hi \<le> hi' \<Longrightarrow> positioned_seq lo' s as ps hi'"
proof (induction as arbitrary: lo lo' ps)
  case Nil
  then show ?case by (cases ps) simp_all
next
  case (Cons a as)
  then show ?case
    by (cases ps) (auto intro: positioned_weaken)
qed

lemma positioned_get:
  assumes "positioned lo s a p"
  shows "get_width s a = Some (node_width p)" and "get_x s a = Some (node_x p)"
  using assms by (cases p; auto simp: positioned_iff get_width_def get_x_def)+

lemma positioned_seq_length: "positioned_seq lo s ls ps hi \<Longrightarrow> length ls = length ps"
proof (induction ls arbitrary: lo ps)
  case Nil
  then show ?case by (cases ps) simp_all
next
  case (Cons a as)
  then show ?case by (cases ps) auto
qed

lemma positioned_seq_nth:
  "positioned_seq lo s ls ps hi \<Longrightarrow> k < length ls \<Longrightarrow>
     positioned lo s (ls ! k) (ps ! k) \<and> ls ! k < hi"
proof (induction ls arbitrary: lo ps k)
  case Nil
  then show ?case by simp
next
  case (Cons a as)
  from Cons.prems(1) obtain p ps' where ps: "ps = p # ps'"
    by (cases ps) simp_all
  with Cons.prems(1) have a: "a < hi" "positioned lo s a p" and rest: "positioned_seq (Suc a) s as ps' hi"
    by simp_all
  show ?case
  proof (cases k)
    case 0
    with a ps show ?thesis by simp
  next
    case (Suc j)
    with Cons.prems(2) have "j < length as" by simp
    from Cons.IH [OF rest this] have "positioned (Suc a) s (as ! j) (ps' ! j)" "as ! j < hi"
      by simp_all
    moreover from a have "lo \<le> Suc a"
      by (auto dest: positioned_bounds)
    ultimately show ?thesis
      using Suc ps by (auto intro: positioned_weaken)
  qed
qed

lemma reduce_width_positioned:
  "positioned_seq lo s ls ps hi \<Longrightarrow>
     reduce_width s acc ls = Some (acc + sum_list (map node_width ps))"
proof (induction ls arbitrary: lo ps acc)
  case Nil
  then show ?case by (cases ps) simp_all
next
  case (Cons a as)
  from Cons.prems obtain p ps' where ps: "ps = p # ps'"
    by (cases ps) simp_all
  with Cons.prems have a: "positioned lo s a p" and rest: "positioned_seq (Suc a) s as ps' hi"
    by simp_all
  show ?case
    using Cons.IH [OF rest] positioned_get(1) [OF a] ps by (simp add: algebra_simps)
qed

lemma positioned_put_x:
  assumes "positioned lo s a p"
  shows "\<exists>s'. put_x a v s = Some s' \<and> length s' = length s
           \<and> (\<forall>b. b \<noteq> a \<longrightarrow> lookup s' b = lookup s b) \<and> positioned lo s' a (set_x v p)"
proof -
  obtain i n x y w ps where p: "p = PositionedNode i n x y w ps"
    by (cases p)
  with assms obtain c as where a: "lookup s a = Some (Positioned i n x y w c)"
    and b: "lo \<le> c" "c < a"
    and c: "lookup s c = Some (Array as)" and l: "positioned_seq (Suc c) s as ps a"
    by (auto simp: positioned_iff)
  let ?s = "s[a := Positioned i n v y w c]"
  from a have less: "a < length s"
    by (rule lookup_Some_less)
  have "positioned_seq (Suc c) ?s as ps a"
    using l by (rule positioned_agree) simp
  with a b c less have "positioned lo ?s a (set_x v p)"
    by (simp add: p positioned_iff)
  moreover have "put_x a v s = Some ?s"
    by (simp add: put_x_def a)
  ultimately show ?thesis
    by simp
qed

lemma forEach_place_positioned:
  assumes "positioned_seq lo s ls ps hi" and "ch < lo" and "lookup s ch = Some (Array acc)"
  shows "\<exists>cx' s'. forEach_place sx ch cx ls s = Some (cx', s') \<and> length s' = length s
           \<and> (\<forall>b. b \<noteq> ch \<longrightarrow> b < lo \<or> hi \<le> b \<longrightarrow> lookup s' b = lookup s b)
           \<and> lookup s' ch = Some (Array (acc @ ls))
           \<and> positioned_seq lo s' ls (slots sx cx ps) hi"
  using assms
proof (induction ls arbitrary: lo s ps cx acc)
  case Nil
  then show ?case by (cases ps) simp_all
next
  case (Cons c cs)
  from Cons.prems(1) obtain p ps' where ps: "ps = p # ps'"
    by (cases ps) simp_all
  with Cons.prems(1) have c: "c < hi" and p: "positioned lo s c p"
    and rest: "positioned_seq (Suc c) s cs ps' hi"
    by simp_all
  from p have lo: "lo < c"
    by (simp add: positioned_bounds)
  let ?v = "cx + node_width p / 2"
  from positioned_put_x [OF p, of ?v] obtain s1 where s1: "put_x c ?v s = Some s1"
    and len1: "length s1 = length s" and frame1: "\<And>b. b \<noteq> c \<Longrightarrow> lookup s1 b = lookup s b"
    and p1: "positioned lo s1 c (set_x ?v p)"
    by blast
  let ?s2 = "s1[ch := Array (acc @ [c])]"
  from Cons.prems(2,3) lo have ch1: "lookup s1 ch = Some (Array acc)" and chlen: "ch < length s1"
    by (auto simp: frame1 len1 dest: lookup_Some_less)
  then have push: "push ch c s1 = Some ?s2"
    by (simp add: push_def)
  have p2: "positioned lo ?s2 c (set_x ?v p)"
    using p1 by (rule positioned_agree) (use Cons.prems(2) in simp)
  have rest2: "positioned_seq (Suc c) ?s2 cs ps' hi"
    using rest by (rule positioned_agree) (use Cons.prems(2) lo in \<open>simp add: frame1\<close>)
  have ch2: "lookup ?s2 ch = Some (Array (acc @ [c]))"
    using chlen by simp
  from Cons.prems(2) lo have "ch < Suc c" by simp
  from Cons.IH [OF rest2 this ch2, of "cx + node_width p + sx * (1 / 2)"]
  obtain cx' s' where run: "forEach_place sx ch (cx + node_width p + sx * (1 / 2)) cs ?s2 = Some (cx', s')"
    and len': "length s' = length ?s2"
    and frame': "\<And>b. b \<noteq> ch \<Longrightarrow> b < Suc c \<or> hi \<le> b \<Longrightarrow> lookup s' b = lookup ?s2 b"
    and ch': "lookup s' ch = Some (Array ((acc @ [c]) @ cs))"
    and seq': "positioned_seq (Suc c) s' cs (slots sx (cx + node_width p + sx * (1 / 2)) ps') hi"
    by auto
  have "positioned lo s' c (set_x ?v p)"
    using p2 by (rule positioned_agree) (use Cons.prems(2) in \<open>simp add: frame'\<close>)
  with seq' c have "positioned_seq lo s' (c # cs) (slots sx cx ps) hi"
    by (simp add: ps)
  moreover have "forEach_place sx ch cx (c # cs) s = Some (cx', s')"
    using positioned_get(1) [OF p] positioned_get(1) [OF p2] s1 push run by simp
  moreover have "lookup s' b = lookup s b" if "b \<noteq> ch" "b < lo \<or> hi \<le> b" for b
    using that lo c frame' [of b] frame1 [of b] by auto
  ultimately show ?case
    using len' len1 ch' by auto
qed

lemma child_layouts_map:
  "child_layouts t y level sx sy =
     map (\<lambda>child. layoutTree child 0 (y + sy) 0 0 0 sx sy) (member_children t)"
proof -
  have "map (\<lambda>(i, child). layoutTree child 0 (y + sy) (level + 1) (of_nat i) c sx sy) (enumerate k cs)
      = map (\<lambda>child. layoutTree child 0 (y + sy) 0 0 0 sx sy) cs" for c k cs
  proof (induction cs arbitrary: k)
    case Nil
    show ?case by simp
  next
    case (Cons a cs)
    then show ?case
      using layoutTree_aux_args [of a 0 "y + sy" "level + 1" "of_nat k" c sx sy 0 0 0] by simp
  qed
  then show ?thesis
    by (simp add: child_layouts_def)
qed

lemma stored_list_length: "stored_list s as cs \<Longrightarrow> length as = length cs"
proof (induction as arbitrary: cs)
  case Nil
  then show ?case by (cases cs) simp_all
next
  case (Cons a as)
  then show ?case by (cases cs) auto
qed

lemma stored_prefix: "stored s a t \<Longrightarrow> prefix s s' \<Longrightarrow> stored s' a t"
  by (erule stored_agree(1)) (simp add: prefix_lookup)

lemma map_store_layout:
  assumes "\<And>c. c \<in> set cs \<Longrightarrow> lays fuel sx sy c"
    and "stored_list s0 as cs" and "prefix s0 s"
  shows "\<exists>ls s'. map_store (\<lambda>(i, child). layoutTree_store fuel child 0 y l (of_nat i) cnt sx sy)
                    (enumerate k as) s = Some (ls, s')
           \<and> prefix s s'
           \<and> positioned_seq (length s) s' ls (map (\<lambda>child. layoutTree child 0 y 0 0 0 sx sy) cs)
                 (length s')"
  using assms
proof (induction as arbitrary: cs s k)
  case Nil
  then show ?case by (cases cs) simp_all
next
  case (Cons a as)
  from Cons.prems(2) obtain c cs' where cs: "cs = c # cs'"
    by (cases cs) simp_all
  with Cons.prems(2) have a0: "stored s0 a c" and rest0: "stored_list s0 as cs'"
    by simp_all
  from a0 Cons.prems(3) have "stored s a c"
    by (rule stored_prefix)
  moreover have "lays fuel sx sy c"
    using Cons.prems(1) cs by simp
  ultimately obtain a1 s1 where
    run1: "layoutTree_store fuel a 0 y l (of_nat k) cnt sx sy s = Some (a1, s1)"
    and pre1: "prefix s s1"
    and pos1: "positioned (length s) s1 a1 (layoutTree c 0 y l (of_nat k) cnt sx sy)"
    unfolding lays_def by blast
  from pos1 have pos1': "positioned (length s) s1 a1 (layoutTree c 0 y 0 0 0 sx sy)"
    using layoutTree_aux_args [of c 0 y l "of_nat k" cnt sx sy 0 0 0] by simp
  from Cons.prems(3) pre1 have "prefix s0 s1"
    by (rule prefix_order.trans)
  from Cons.IH [OF _ rest0 this, of "Suc k"] Cons.prems(1) cs
  obtain ls s' where
    run: "map_store (\<lambda>(i, child). layoutTree_store fuel child 0 y l (of_nat i) cnt sx sy)
            (enumerate (Suc k) as) s1 = Some (ls, s')"
    and pre: "prefix s1 s'"
    and seq: "positioned_seq (length s1) s' ls (map (\<lambda>child. layoutTree child 0 y 0 0 0 sx sy) cs')
                (length s')"
    by auto
  from pos1' have a1: "a1 < length s1"
    by (simp add: positioned_bounds)
  from pre have len: "length s1 \<le> length s'"
    by (rule prefix_length_le)
  have "positioned (length s) s' a1 (layoutTree c 0 y 0 0 0 sx sy)"
    using pos1' by (rule positioned_agree(1)) (use a1 pre in \<open>simp add: prefix_lookup\<close>)
  moreover have "positioned_seq (Suc a1) s' ls (map (\<lambda>child. layoutTree child 0 y 0 0 0 sx sy) cs')
      (length s')"
    using seq by (rule positioned_seq_weaken) (use a1 in simp_all)
  ultimately have "positioned_seq (length s) s' (a1 # ls)
      (map (\<lambda>child. layoutTree child 0 y 0 0 0 sx sy) cs) (length s')"
    using a1 len by (simp add: cs)
  moreover have "prefix s s'"
    using pre1 pre by (rule prefix_order.trans)
  moreover have "map_store (\<lambda>(i, child). layoutTree_store fuel child 0 y l (of_nat i) cnt sx sy)
                    (enumerate k (a # as)) s = Some (a1 # ls, s')"
    using run1 run by simp
  ultimately show ?case
    by blast
qed

lemma lays_leaf: "lays (Suc fuel) sx sy (FamilyMember i n [])"
  unfolding lays_def
proof (intro allI impI)
  fix node s x y level si sc
  assume "stored s node (FamilyMember i n [])"
  then obtain c as where node: "lookup s node = Some (Member i n c)"
    and c: "lookup s c = Some (Array as)" and "stored_list s as []"
    by (auto simp: stored_iff)
  then have as: "as = []"
    by (cases as) simp_all
  from node c have less: "node < length s" "c < length s"
    by (auto dest: lookup_Some_less)
  let ?s' = "s @ [Array [], Positioned i n x y sx (length s)]"
  have "layoutTree_store (Suc fuel) node x y level si sc sx sy s = Some (Suc (length s), ?s')"
    using node c less by (simp add: alloc_def get_member_def get_array_def as)
  moreover have "positioned (length s) ?s' (Suc (length s)) (PositionedNode i n x y sx [])"
    by (simp add: positioned_iff)
  ultimately show "\<exists>a' s'. layoutTree_store (Suc fuel) node x y level si sc sx sy s = Some (a', s')
      \<and> prefix s s'
      \<and> positioned (length s) s' a' (layoutTree (FamilyMember i n []) x y level si sc sx sy)"
    by (simp add: layoutTree_leaf)
qed

lemma layoutTree_store_node:
  assumes "get_member (s @ [Array []]) node = Some (i0, n0, c)"
    and "get_array (s @ [Array []]) c = Some kids"
    and "0 < length kids"
    and "map_store (\<lambda>(i, child). layoutTree_store fuel child 0 (y + sy) (level + 1) (of_nat i)
                          (of_nat (length kids)) sx sy) (enumerate 0 kids) (s @ [Array []]) = Some (ls, s1)"
    and "reduce_width (s1 @ [Array ls]) 0 ls = Some tw"
    and "width = max (tw + sx * (1 / 2) * (of_nat (length ls) - 1)) sx"
    and "forEach_place sx (length s) (x - width / 2) ls (s1 @ [Array ls]) = Some (cx', s3)"
    and "get_array s3 (length s) = Some cs"
    and "element cs 0 = Some first"
    and "(if length cs = 1 then get_x s3 first
          else do { last \<leftarrow> element cs (length cs - 1);
                    a \<leftarrow> get_x s3 first; b \<leftarrow> get_x s3 last; Some ((a + b) / 2) }) = Some x'"
    and "get_member s3 node = Some (i, n, c')"
  shows "layoutTree_store (Suc fuel) node x y level si sc sx sy s =
           Some (length s3, s3 @ [Positioned i n x' y width (length s)])"
  using assms by (simp add: alloc_def)

lemma lays_node:
  assumes kids: "\<And>c. c \<in> set cs \<Longrightarrow> lays fuel sx sy c" and ne: "cs \<noteq> []"
  shows "lays (Suc fuel) sx sy (FamilyMember i n cs)"
  unfolding lays_def
proof (intro allI impI)
  fix node s x y level si sc
  let ?t = "FamilyMember i n cs"
  assume "stored s node ?t"
  then obtain c as where node: "lookup s node = Some (Member i n c)"
    and c: "lookup s c = Some (Array as)" and as: "stored_list s as cs"
    by (auto simp: stored_iff)
  from node c have less: "node < length s" "c < length s"
    by (auto dest: lookup_Some_less)
  from as ne have len_as: "length as = length cs" "0 < length as"
    by (auto dest: stored_list_length)
  let ?ch = "length s"
  let ?s0 = "s @ [Array []]"
  let ?ps = "map (\<lambda>child. layoutTree child 0 (y + sy) 0 0 0 sx sy) cs"
  have ps: "child_layouts ?t y level sx sy = ?ps"
    by (simp add: child_layouts_map)
  \<comment> \<open>the calls for the children\<close>
  have "prefix s ?s0"
    by simp
  from map_store_layout [where y = "y + sy" and l = "level + 1" and cnt = "of_nat (length as)"
      and k = 0, OF kids as this]
  obtain ls s1 where
    run1: "map_store (\<lambda>(i, child). layoutTree_store fuel child 0 (y + sy) (level + 1) (of_nat i)
                          (of_nat (length as)) sx sy) (enumerate 0 as) ?s0 = Some (ls, s1)"
    and pre1: "prefix ?s0 s1"
    and seq1: "positioned_seq (length ?s0) s1 ls ?ps (length s1)"
    by blast
  from seq1 have len_ls: "length ls = length cs"
    by (auto dest: positioned_seq_length)
  from pre1 have len1: "length ?s0 \<le> length s1"
    by (rule prefix_length_le)
  \<comment> \<open>the array childLayouts\<close>
  let ?s2 = "s1 @ [Array ls]"
  have seq2: "positioned_seq (length ?s0) ?s2 ls ?ps (length s1)"
    using seq1 by (rule positioned_agree(2)) simp
  have old2: "lookup ?s2 b = lookup ?s0 b" if "b < length ?s0" for b
    using that pre1 len1 by (simp add: prefix_lookup del: length_append)
  let ?total = "sum_list (map node_width ?ps)"
  let ?width = "max (?total + sx * (1 / 2) * (of_nat (length ls) - 1)) sx"
  have red: "reduce_width ?s2 0 ls = Some ?total"
    using reduce_width_positioned [OF seq2, of 0] by simp
  \<comment> \<open>the loop that places the children\<close>
  have "lookup ?s2 ?ch = Some (Array [])"
    using old2 [of ?ch] by simp
  moreover have "?ch < length ?s0"
    by simp
  ultimately have "\<exists>cx' s'. forEach_place sx ?ch (x - ?width / 2) ls ?s2 = Some (cx', s')
      \<and> length s' = length ?s2
      \<and> (\<forall>b. b \<noteq> ?ch \<longrightarrow> b < length ?s0 \<or> length s1 \<le> b \<longrightarrow> lookup s' b = lookup ?s2 b)
      \<and> lookup s' ?ch = Some (Array ([] @ ls))
      \<and> positioned_seq (length ?s0) s' ls (slots sx (x - ?width / 2) ?ps) (length s1)"
    by (intro forEach_place_positioned [OF seq2])
  then obtain cx' s3 where
    run3: "forEach_place sx ?ch (x - ?width / 2) ls ?s2 = Some (cx', s3)"
    and len3: "length s3 = length ?s2"
    and frame3: "\<And>b. b \<noteq> ?ch \<Longrightarrow> b < length ?s0 \<or> length s1 \<le> b \<Longrightarrow> lookup s3 b = lookup ?s2 b"
    and ch3: "lookup s3 ?ch = Some (Array ls)"
    and seq3: "positioned_seq (length ?s0) s3 ls (slots sx (x - ?width / 2) ?ps) (length s1)"
    unfolding append_Nil by blast
  let ?kids = "slots sx (x - ?width / 2) ?ps"
  have old3: "lookup s3 b = lookup s b" if "b < length s" for b
    using that frame3 [of b] old2 [of b] by simp
  \<comment> \<open>reading the positions of the first and of the last child\<close>
  have nth: "get_x s3 (ls ! k) = Some (node_x (?kids ! k))" if "k < length ls" for k
    using positioned_seq_nth [OF seq3 that] by (auto dest: positioned_get(2))
  let ?x = "if length ?kids = 1 then node_x (?kids ! 0)
            else (node_x (?kids ! 0) + node_x (?kids ! (length ?kids - 1))) / 2"
  have first: "element ls 0 = Some (ls ! 0)"
    using len_ls ne by (simp add: element_def)
  have readx: "(if length ls = 1 then get_x s3 (ls ! 0)
         else do { last \<leftarrow> element ls (length ls - 1);
                   a \<leftarrow> get_x s3 (ls ! 0); b \<leftarrow> get_x s3 last; Some ((a + b) / 2) }) = Some ?x"
    using len_ls ne nth [of 0] nth [of "length ls - 1"] by (simp add: element_def)
  \<comment> \<open>the object that is returned\<close>
  let ?s4 = "s3 @ [Positioned i n ?x y ?width ?ch]"
  have run: "layoutTree_store (Suc fuel) node x y level si sc sx sy s = Some (length s3, ?s4)"
  proof (rule layoutTree_store_node)
    show "get_member ?s0 node = Some (i, n, c)"
      using node less by (simp add: get_member_def)
    show "get_array ?s0 c = Some as"
      using c less by (simp add: get_array_def)
    show "0 < length as"
      by (rule len_as)
    show "map_store (\<lambda>(i, child). layoutTree_store fuel child 0 (y + sy) (level + 1) (of_nat i)
                          (of_nat (length as)) sx sy) (enumerate 0 as) ?s0 = Some (ls, s1)"
      by (rule run1)
    show "reduce_width ?s2 0 ls = Some ?total"
      by (rule red)
    show "?width = max (?total + sx * (1 / 2) * (of_nat (length ls) - 1)) sx"
      by (rule refl)
    show "forEach_place sx ?ch (x - ?width / 2) ls ?s2 = Some (cx', s3)"
      by (rule run3)
    show "get_array s3 ?ch = Some ls"
      using ch3 by (simp add: get_array_def)
    show "element ls 0 = Some (ls ! 0)"
      by (rule first)
    show "(if length ls = 1 then get_x s3 (ls ! 0)
         else do { last \<leftarrow> element ls (length ls - 1);
                   a \<leftarrow> get_x s3 (ls ! 0); b \<leftarrow> get_x s3 last; Some ((a + b) / 2) }) = Some ?x"
      by (rule readx)
    show "get_member s3 node = Some (i, n, c)"
      using node less old3 [of node] by (simp add: get_member_def)
  qed
  have "prefix s ?s4"
  proof (rule prefixI_lookup)
    show "length s \<le> length ?s4"
      using len3 len1 by simp
  next
    fix b assume "b < length s"
    then show "lookup ?s4 b = lookup s b"
      using old3 [of b] len3 len1 by simp
  qed
  moreover have "positioned (length s) ?s4 (length s3) (PositionedNode i n ?x y ?width ?kids)"
  proof -
    have "positioned_seq (Suc ?ch) s3 ls ?kids (length s3)"
      using seq3 by (rule positioned_seq_weaken) (simp_all add: len3)
    then have "positioned_seq (Suc ?ch) ?s4 ls ?kids (length s3)"
      by (rule positioned_agree(2)) simp
    moreover have "lookup ?s4 ?ch = Some (Array ls)"
      using ch3 len3 len1 by simp
    moreover have "?ch < length s3"
      using len3 len1 by simp
    ultimately show ?thesis
      by (simp add: positioned_iff)
  qed
  moreover have "layoutTree ?t x y level si sc sx sy = PositionedNode i n ?x y ?width ?kids"
    using ne by (simp add: layoutTree_node ps Let_def len_ls)
  ultimately show "\<exists>a' s'. layoutTree_store (Suc fuel) node x y level si sc sx sy s = Some (a', s')
      \<and> prefix s s' \<and> positioned (length s) s' a' (layoutTree ?t x y level si sc sx sy)"
    using run by simp
qed

lemma fold_max_ge: "(a::nat) \<le> fold max xs a"
  by (induction xs arbitrary: a) (auto intro: order_trans [OF max.cobounded2])

lemma fold_max_mem: "(x::nat) \<in> set xs \<Longrightarrow> x \<le> fold max xs a"
  by (induction xs arbitrary: a) (auto intro: order_trans [OF max.cobounded1 fold_max_ge])

lemma height_child: "c \<in> set cs \<Longrightarrow> height c \<le> fold max (map height cs) 0"
  by (rule fold_max_mem) simp

lemma lays_height: "height t \<le> fuel \<Longrightarrow> lays fuel sx sy t"
proof (induction fuel arbitrary: t)
  case 0
  then show ?case by (cases t) simp
next
  case (Suc fuel)
  obtain i n cs where t: "t = FamilyMember i n cs"
    by (cases t)
  have kids: "lays fuel sx sy c" if "c \<in> set cs" for c
  proof (rule Suc.IH)
    from that have "height c \<le> fold max (map height cs) 0"
      by (rule height_child)
    with Suc.prems show "height c \<le> fuel"
      by (simp add: t)
  qed
  show ?case
  proof (cases "cs = []")
    case True
    then show ?thesis by (simp add: t lays_leaf)
  next
    case False
    with kids show ?thesis unfolding t by (intro lays_node)
  qed
qed

subsection \<open>Rounding\<close>

lemma foldl_sum_fl_exact:
  "\<forall>v \<in> set (sum_values a (map node_width cl)). fl v = v \<Longrightarrow>
     foldl (\<lambda>sum c. fl (sum + node_width c)) a cl = foldl (\<lambda>sum c. sum + node_width c) a cl"
  by (induction cl arbitrary: a) simp_all

lemma foldl_place_fl_exact:
  "\<forall>v \<in> set (place_values s cx cl). fl v = v \<Longrightarrow>
     foldl (place_fl fl s) (cx, acc) cl = foldl (place s) (cx, acc) cl"
proof (induction cl arbitrary: cx acc)
  case Nil
  show ?case by simp
next
  case (Cons c cl)
  have fixed: "fl v = v" if "v \<in> set (place_values s cx (c # cl))" for v
    using Cons.prems that by blast
  have step: "fl (node_width c / 2) = node_width c / 2"
    "fl (cx + node_width c / 2) = cx + node_width c / 2"
    "fl (s * (1 / 2)) = s * (1 / 2)"
    "fl (node_width c + s * (1 / 2)) = node_width c + s * (1 / 2)"
    "fl (cx + (node_width c + s * (1 / 2))) = cx + (node_width c + s * (1 / 2))"
    by (rule fixed, simp)+
  have rest: "\<forall>v \<in> set (place_values s (cx + (node_width c + s * (1 / 2))) cl). fl v = v"
    by (intro ballI fixed) simp
  have "place_fl fl s (cx, acc) c =
      (cx + (node_width c + s * (1 / 2)), acc @ [set_x (cx + node_width c / 2) c])"
    by (simp only: place_fl.simps step)
  moreover have "place s (cx, acc) c =
      (cx + (node_width c + s * (1 / 2)), acc @ [set_x (cx + node_width c / 2) c])"
    by (simp only: place.simps add.assoc)
  ultimately show ?case
    using Cons.IH [OF rest] by (simp only: foldl.simps)
qed

lemma layoutTree_fl_node:
  assumes "member_children node \<noteq> []"
    and "map (\<lambda>(i, child).
               layoutTree_fl fl child 0 (fl (y + sy)) (fl (level + 1)) (of_nat i)
                 (of_nat (length (member_children node))) sx sy)
             (enumerate 0 (member_children node)) = cl"
    and "foldl (\<lambda>sum c. fl (sum + node_width c)) 0 cl = tw"
    and "fl (fl (sx * (1 / 2)) * fl (of_nat (length cl) - 1)) = ts"
    and "max (fl (tw + ts)) sx = width"
    and "foldl (place_fl fl sx) (fl (x - fl (width / 2)), []) cl = (cx', kids)"
    and "(if length kids = 1 then node_x (kids ! 0)
          else fl (fl (node_x (kids ! 0) + node_x (kids ! (length kids - 1))) / 2)) = x'"
  shows "layoutTree_fl fl node x y level si sc sx sy =
           PositionedNode (member_id node) (member_name node) x' y width kids"
  using assms by (subst layoutTree_fl.simps) (simp add: Let_def)

lemma map_enumerate_cong:
  assumes "\<And>i c. c \<in> set cs \<Longrightarrow> f i c = g c"
  shows "map (\<lambda>(i, c). f i c) (enumerate k cs) = map g cs"
  using assms by (induction cs arbitrary: k) simp_all

lemma layoutTree_fl_exact:
  assumes "\<forall>v \<in> set (layout_values t x y sx sy). fl v = v"
  shows "layoutTree_fl fl t x y l si sc sx sy = layoutTree t x y l' si' sc' sx sy"
  using assms
proof (induction t arbitrary: x y l si sc l' si' sc' rule: measure_induct_rule [where f = size])
  case (less t)
  obtain i n cs where t: "t = FamilyMember i n cs"
    by (cases t)
  show ?case
  proof (cases "cs = []")
    case True
    then show ?thesis
      by (simp add: t layoutTree_fl.simps [of fl "FamilyMember i n []"] layoutTree_leaf)
  next
    case False
    let ?cl = "map (\<lambda>child. layoutTree child 0 (y + sy) 0 0 0 sx sy) cs"
    let ?tw = "sum_list (map node_width ?cl)"
    let ?ts = "sx * (1 / 2) * (of_nat (length cs) - 1)"
    let ?width = "max (?tw + ?ts) sx"
    let ?kids = "slots sx (x - ?width / 2) ?cl"
    let ?first = "node_x (?kids ! 0)"
    let ?last = "node_x (?kids ! (length cs - 1))"
    let ?x = "if length ?kids = 1 then ?first else (?first + ?last) / 2"
    have vals: "layout_values t x y sx sy =
        [y + sy] @ concat (map (\<lambda>child. layout_values child 0 (y + sy) sx sy) cs)
        @ sum_values 0 (map node_width ?cl)
        @ [sx * (1 / 2), of_nat (length cs) - 1, ?ts, ?tw + ?ts, ?width / 2, x - ?width / 2]
        @ place_values sx (x - ?width / 2) ?cl
        @ (if length cs = 1 then [] else [?first + ?last, (?first + ?last) / 2])"
      using False unfolding t layout_values.simps Let_def by (simp only: if_False)
    have fixed: "fl v = v" if "v \<in> set (layout_values t x y sx sy)" for v
      using less.prems that by blast
    have y: "fl (y + sy) = y + sy"
      by (rule fixed) (simp add: vals)
    have kid: "layoutTree_fl fl child 0 (y + sy) l0 i0 c0 sx sy = layoutTree child 0 (y + sy) 0 0 0 sx sy"
      if "child \<in> set cs" for child l0 i0 c0
    proof (rule less.IH)
      from that show "size child < size t"
        by (auto simp: t less_Suc_eq_le size_list_estimation')
      show "\<forall>v \<in> set (layout_values child 0 (y + sy) sx sy). fl v = v"
        using that by (intro ballI fixed) (auto simp: vals)
    qed
    have 1: "map (\<lambda>(i, child).
               layoutTree_fl fl child 0 (fl (y + sy)) (fl (l + 1)) (of_nat i)
                 (of_nat (length (member_children t))) sx sy)
             (enumerate 0 (member_children t)) = ?cl"
      unfolding y t FamilyMember.sel by (rule map_enumerate_cong) (rule kid)
    have 2: "foldl (\<lambda>sum c. fl (sum + node_width c)) 0 ?cl = ?tw"
    proof -
      have "\<forall>v \<in> set (sum_values 0 (map node_width ?cl)). fl v = v"
        by (intro ballI fixed) (simp add: vals)
      then show ?thesis
        by (simp only: foldl_sum_fl_exact foldl_width_sum add_0)
    qed
    have 3: "fl (fl (sx * (1 / 2)) * fl (of_nat (length ?cl) - 1)) = ?ts"
    proof -
      have "fl (sx * (1 / 2)) = sx * (1 / 2)" "fl (of_nat (length cs) - 1) = of_nat (length cs) - 1"
        "fl ?ts = ?ts"
        by (rule fixed, simp add: vals)+
      then show ?thesis
        by (simp only: length_map)
    qed
    have 4: "max (fl (?tw + ?ts)) sx = ?width"
    proof -
      have "fl (?tw + ?ts) = ?tw + ?ts"
        by (rule fixed) (simp add: vals)
      then show ?thesis
        by (simp only:)
    qed
    have 5: "foldl (place_fl fl sx) (fl (x - fl (?width / 2)), []) ?cl =
        (x - ?width / 2 + (\<Sum>c\<leftarrow>?cl. node_width c + sx * (1 / 2)), ?kids)"
    proof -
      have "fl (?width / 2) = ?width / 2" "fl (x - ?width / 2) = x - ?width / 2"
        by (rule fixed, simp add: vals)+
      moreover have "\<forall>v \<in> set (place_values sx (x - ?width / 2) ?cl). fl v = v"
        by (intro ballI fixed) (simp add: vals)
      ultimately show ?thesis
        by (simp only: foldl_place_fl_exact foldl_place append_Nil)
    qed
    have len: "length ?kids = length cs"
      by simp
    have 6: "(if length ?kids = 1 then node_x (?kids ! 0)
          else fl (fl (node_x (?kids ! 0) + node_x (?kids ! (length ?kids - 1))) / 2)) = ?x"
    proof (cases "length ?kids = 1")
      case True
      show ?thesis
        by (simp only: if_P [OF True])
    next
      case False
      then have "length cs \<noteq> 1"
        by simp
      then have "fl (?first + ?last) = ?first + ?last"
        "fl ((?first + ?last) / 2) = (?first + ?last) / 2"
        by - (rule fixed, simp add: vals)+
      moreover have "?kids ! (length ?kids - 1) = ?kids ! (length cs - 1)"
        by (simp only: len)
      ultimately show ?thesis
        by (simp only: if_not_P [OF False])
    qed
    have ne: "member_children t \<noteq> []"
      using False by (simp add: t)
    have "layoutTree_fl fl t x y l si sc sx sy = PositionedNode i n ?x y ?width ?kids"
      using layoutTree_fl_node [OF ne 1 2 3 4 5 6] by (simp add: t)
    moreover have "layoutTree t x y l' si' sc' sx sy = PositionedNode i n ?x y ?width ?kids"
      using False by (simp add: layoutTree_node child_layouts_map t Let_def)
    ultimately show ?thesis
      by simp
  qed
qed

lemma foldl_place_fl_set:
  "c' \<in> set (snd (foldl (place_fl fl s) (cx, acc) cl)) \<Longrightarrow>
     c' \<in> set acc \<or> (\<exists>v c. c \<in> set cl \<and> c' = set_x v c)"
proof (induction cl arbitrary: cx acc)
  case Nil
  then show ?case by simp
next
  case (Cons c cl)
  from Cons.prems have "c' \<in> set (snd (foldl (place_fl fl s)
      (fl (cx + fl (node_width c + fl (s * (1 / 2)))),
       acc @ [set_x (fl (cx + fl (node_width c / 2))) c]) cl))"
    by simp
  from Cons.IH [OF this] show ?case
    by auto
qed

lemma layoutTree_fl_y [simp]: "node_y (layoutTree_fl fl t x y l si sc sx sy) = y"
  by (subst layoutTree_fl.simps) (simp add: Let_def split: prod.splits)

lemma layoutTree_fl_children:
  assumes "c' \<in> set (node_children (layoutTree_fl fl t x y l si sc sx sy))"
  shows "\<exists>v child l' si' sc'. child \<in> set (member_children t)
           \<and> c' = set_x v (layoutTree_fl fl child 0 (fl (y + sy)) l' si' sc' sx sy)"
proof -
  let ?cl = "map (\<lambda>(i, child).
               layoutTree_fl fl child 0 (fl (y + sy)) (fl (l + 1)) (of_nat i)
                 (of_nat (length (member_children t))) sx sy)
             (enumerate 0 (member_children t))"
  let ?tw = "foldl (\<lambda>sum c. fl (sum + node_width c)) 0 ?cl"
  let ?ts = "fl (fl (sx * (1 / 2)) * fl (of_nat (length ?cl) - 1))"
  let ?width = "max (fl (?tw + ?ts)) sx"
  have ne: "member_children t \<noteq> []"
  proof
    assume "member_children t = []"
    then have "node_children (layoutTree_fl fl t x y l si sc sx sy) = []"
      by (subst layoutTree_fl.simps) simp
    with assms show False by simp
  qed
  obtain cx' kids where
    run: "foldl (place_fl fl sx) (fl (x - fl (?width / 2)), []) ?cl = (cx', kids)"
    by (cases "foldl (place_fl fl sx) (fl (x - fl (?width / 2)), []) ?cl")
  from layoutTree_fl_node [OF ne refl refl refl refl run refl]
  have "node_children (layoutTree_fl fl t x y l si sc sx sy) = kids"
    by simp
  with assms run have "c' \<in> set (snd (foldl (place_fl fl sx) (fl (x - fl (?width / 2)), []) ?cl))"
    by simp
  then obtain v c where c: "c \<in> set ?cl" and c': "c' = set_x v c"
    by (auto dest: foldl_place_fl_set)
  from c obtain i where "i < length (member_children t)"
    and "c = layoutTree_fl fl (member_children t ! i) 0 (fl (y + sy)) (fl (l + 1)) (of_nat i)
                 (of_nat (length (member_children t))) sx sy"
    by (auto simp: in_set_enumerate_eq)
  with c' show ?thesis
    by (metis nth_mem)
qed

lemma layoutTree_fl_two_leaves:
  "layoutTree_fl round_double
     (FamilyMember ''r'' ''R'' [FamilyMember ''a'' ''A'' [], FamilyMember ''b'' ''B'' []])
     0 80 0 0 1 180 160 =
   PositionedNode ''r'' ''R'' 0 80 450
     [PositionedNode ''a'' ''A'' (- 135) 240 180 [], PositionedNode ''b'' ''B'' 135 240 180 []]"
  by code_simp

lemma layout_values_two_leaves:
  "\<forall>v \<in> set (layout_values
       (FamilyMember ''r'' ''R'' [FamilyMember ''a'' ''A'' [], FamilyMember ''b'' ''B'' []])
       0 80 180 160). is_double v"
  by code_simp

lemma layoutTree_fl_absorbed:
  "layoutTree_fl round_double
     (FamilyMember ''r'' ''R'' [FamilyMember ''a'' ''A'' [], FamilyMember ''b'' ''B'' []])
     9007199254740992 80 0 0 1 1 160 =
   PositionedNode ''r'' ''R'' 9007199254740992 80 (5 / 2)
     [PositionedNode ''a'' ''A'' 9007199254740992 240 1 [],
      PositionedNode ''b'' ''B'' 9007199254740992 240 1 []]"
  by code_simp

lemma is_double_240: "is_double 240"
  by code_simp

lemma layoutTree_fl_chain_absorbed:
  "layoutTree_fl round_double
     (FamilyMember ''r'' ''R'' [FamilyMember ''a'' ''A'' [FamilyMember ''a1'' ''A1'' []]])
     0 9007199254740992 0 0 1 180 1 =
   PositionedNode ''r'' ''R'' 0 9007199254740992 180
     [PositionedNode ''a'' ''A'' 0 9007199254740992 180
        [PositionedNode ''a1'' ''A1'' 0 9007199254740992 180 []]]"
  by code_simp

lemma layoutTree_fl_chain_tenth:
  "layoutTree_fl round_double
     (FamilyMember ''r'' ''R'' [FamilyMember ''a'' ''A'' [FamilyMember ''a1'' ''A1'' []]])
     0 80 0 0 1 180 (3602879701896397 / 36028797018963968) =
   PositionedNode ''r'' ''R'' 0 80 180
     [PositionedNode ''a'' ''A'' 0 (2818268204315443 / 35184372088832) 180
        [PositionedNode ''a1'' ''A1'' 0 (1410893320762163 / 17592186044416) 180 []]]"
  by code_simp

lemma round_double_sums:
  "round_double (9007199254740992 + round_double (2 * 1)) = 9007199254740994"
  "round_double (80 + round_double (2 * (3602879701896397 / 36028797018963968)))
     = 5643573283048653 / 70368744177664"
  by code_simp+

lemma positioned_unique:
  "positioned lo s a p \<Longrightarrow> positioned lo' s a q \<Longrightarrow> p = q"
  "positioned_seq lo s as ps hi \<Longrightarrow> positioned_seq lo' s as qs hi' \<Longrightarrow> ps = qs"
proof (induction lo s a p and lo s as ps hi arbitrary: lo' q and lo' qs hi'
    rule: positioned_positioned_seq.induct)
  case (1 lo s a i n x y w ps)
  obtain i' n' x' y' w' qs where q: "q = PositionedNode i' n' x' y' w' qs"
    by (cases q)
  from "1.prems"(1) obtain c as where a: "lookup s a = Some (Positioned i n x y w c)"
    and c: "lookup s c = Some (Array as)" and l: "positioned_seq (Suc c) s as ps a"
    by (auto simp: positioned_iff)
  from "1.prems"(2) a c have eq: "i' = i" "n' = n" "x' = x" "y' = y" "w' = w"
    and l': "positioned_seq (Suc c) s as qs a"
    by (auto simp: positioned_iff q)
  have "ps = qs"
    using a c l l' by (intro "1.IH") auto
  with eq show ?case
    by (simp add: q)
next
  case (2 lo s hi)
  then show ?case by (cases qs) simp_all
next
  case (3 lo s a as p ps hi)
  from "3.prems"(2) obtain q qs' where qs: "qs = q # qs'"
    by (cases qs) simp_all
  with "3.prems" have "positioned lo s a p" "positioned lo' s a q"
    "positioned_seq (Suc a) s as ps hi" "positioned_seq (Suc a) s as qs' hi'"
    by simp_all
  then have "p = q" "ps = qs'"
    by (auto dest: "3.IH")
  then show ?case
    by (simp add: qs)
qed simp_all

lemma layoutTree_store_example:
  "layoutTree_store 2 5 0 80 0 0 1 180 160 example_store = Some (12, example_store_after)"
  by (simp add: example_store_def example_store_after_def numeral_2_eq_2 alloc_def
      get_member_def get_array_def get_width_def get_x_def put_x_def push_def element_def
      lookup_def enumerate_eq_zip upt_rec)

lemma layoutTree_fl_depth_y_exact:
  assumes "\<forall>k<d. fl (y + of_nat k * spacingY + spacingY) = y + of_nat k * spacingY + spacingY"
    and "n \<in> set (nodes_at d
            (layoutTree_fl fl node x y level siblingIndex siblingsCount spacingX spacingY))"
  shows "node_y n = y + of_nat d * spacingY"
  using assms
proof (induction d arbitrary: node x y level siblingIndex siblingsCount n)
  case 0
  then show ?case by simp
next
  case (Suc d)
  let ?r = "layoutTree_fl fl node x y level siblingIndex siblingsCount spacingX spacingY"
  from Suc.prems(2) obtain c' where c': "c' \<in> set (node_children ?r)"
    and n: "n \<in> set (nodes_at d c')"
    by auto
  from Suc.prems(1) have first: "fl (y + spacingY) = y + spacingY"
    by (auto dest: spec [of _ 0])
  from layoutTree_fl_children [OF c'] obtain v child l' si' sc' where
    c'_eq: "c' = set_x v (layoutTree_fl fl child 0 (y + spacingY) l' si' sc' spacingX spacingY)"
    unfolding first by blast
  from n c'_eq obtain n' where
    n': "n' \<in> set (nodes_at d (layoutTree_fl fl child 0 (y + spacingY) l' si' sc' spacingX spacingY))"
    and y: "node_y n = node_y n'"
    by (blast dest: nodes_at_set_x)
  have "\<forall>k<d. fl (y + spacingY + of_nat k * spacingY + spacingY)
                = y + spacingY + of_nat k * spacingY + spacingY"
  proof (intro allI impI)
    fix k assume "k < d"
    then have "fl (y + of_nat (Suc k) * spacingY + spacingY) = y + of_nat (Suc k) * spacingY + spacingY"
      using Suc.prems(1) by (auto dest: spec [of _ "Suc k"])
    moreover have "y + of_nat (Suc k) * spacingY + spacingY = y + spacingY + of_nat k * spacingY + spacingY"
      by (simp add: algebra_simps)
    ultimately show "fl (y + spacingY + of_nat k * spacingY + spacingY)
                = y + spacingY + of_nat k * spacingY + spacingY"
      by simp
  qed
  from Suc.IH [OF this n'] y show ?case
    by (simp add: algebra_simps)
qed

section \<open>Results\<close>

subsection \<open>The leaf case\<close>

text \<open>
  Claim C6. A single node without children, laid out at \<open>x = 0\<close>, \<open>y = 80\<close> with
  \<open>spacingX = 180\<close>, comes back with \<open>x = 0\<close>, \<open>y = 80\<close>, \<open>width = 180\<close> and no children;
  and whatever the arguments, a childless node gets \<open>width = spacingX\<close> and keeps the
  \<open>x\<close> (and \<open>y\<close>) of the caller.
\<close>

theorem layoutTree_single_node:
  "layoutTree (FamilyMember i n []) 0 80 level siblingIndex siblingsCount 180 spacingY =
     PositionedNode i n 0 80 180 []
   \<and> layoutTree (FamilyMember i n []) x y level siblingIndex siblingsCount spacingX spacingY =
     PositionedNode i n x y spacingX []"
  by (simp add: layoutTree_leaf)

subsection \<open>The two-children case\<close>

text \<open>
  Claim C4. A root with exactly two leaf children, \<open>spacingX = 180\<close>, \<open>spacingY = 160\<close>,
  anchored at \<open>x = 0\<close>, \<open>y = 80\<close>: both children get \<open>y = 240\<close> and width 180, the root
  gets width 450, the children sit at \<open>x = -135\<close> and \<open>x = 135\<close> in input order, and the
  root's recomputed \<open>x\<close> is 0.
\<close>

theorem layoutTree_two_children:
  "layoutTree (FamilyMember i n [FamilyMember i1 n1 [], FamilyMember i2 n2 []])
       0 80 level siblingIndex siblingsCount 180 160 =
     PositionedNode i n 0 80 450
       [PositionedNode i1 n1 (- 135) 240 180 [], PositionedNode i2 n2 135 240 180 []]"
  by (rule layoutTree_two_leaves)

subsection \<open>Widths\<close>



subsection \<open>Bounds\<close>


subsection \<open>Adding a child to an unknown parent\<close>

text \<open>
  Claim C10. When \<open>parentId\<close> is the id of no node of the tree, \<open>addChild\<close> returns a tree
  equal to its argument: the same ids, names and children in the same order at every node,
  and no node added. The function has no failing branch.
\<close>

theorem addChild_unknown_parent:
  assumes "parentId \<notin> member_ids member"
  shows "addChild parentId newMember member = member"
  using assms
proof (induction member)
  case (FamilyMember i n cs)
  from FamilyMember.prems have "i \<noteq> parentId" and "\<And>c. c \<in> set cs \<Longrightarrow> parentId \<notin> member_ids c"
    by auto
  with FamilyMember.IH have "map (addChild parentId newMember) cs = cs"
    by (intro addChild_children) blast
  with \<open>i \<noteq> parentId\<close> show ?case
    by simp
qed

theorem addChild_unknown_parent_witness:
  "''x'' \<notin> member_ids (FamilyMember ''r'' ''R'' [FamilyMember ''a'' ''A'' []])
   \<and> addChild ''x'' (FamilyMember ''n'' ''N'' []) (FamilyMember ''r'' ''R'' [FamilyMember ''a'' ''A'' []])
       = FamilyMember ''r'' ''R'' [FamilyMember ''a'' ''A'' []]"
  using addChild_unknown_parent [of "''x''" "FamilyMember ''r'' ''R'' [FamilyMember ''a'' ''A'' []]"
      "FamilyMember ''n'' ''N'' []"]
  by simp

subsection \<open>Centering\<close>

text \<open>
  Claim C2 says that every node with children sits at the average of the \<open>x\<close> of its first
  and of its last child. The root does (lemma \<open>layoutTree_root_centered\<close>). A node below
  the root does not: its call centres it over its children, which were packed around the
  placeholder \<open>x = 0\<close>, and then the \<^verbatim>\<open>forEach\<close> of its parent overwrites its \<open>x\<close>
  (line 114) and leaves its children where they were. On a root with two children that have
  one child each, the children end at \<open>x = -135\<close> and \<open>x = 135\<close> while both
  grandchildren stay at \<open>x = 0\<close>.
\<close>

theorem layoutTree_not_centered:
  "layoutTree
     (FamilyMember ''r'' ''R''
        [FamilyMember ''a'' ''A'' [FamilyMember ''a1'' ''A1'' []],
         FamilyMember ''b'' ''B'' [FamilyMember ''b1'' ''B1'' []]])
     0 80 0 0 1 180 160 =
   PositionedNode ''r'' ''R'' 0 80 450
     [PositionedNode ''a'' ''A'' (- 135) 240 180 [PositionedNode ''a1'' ''A1'' 0 400 180 []],
      PositionedNode ''b'' ''B'' 135 240 180 [PositionedNode ''b1'' ''B1'' 0 400 180 []]]
   \<and> node_x (PositionedNode ''a'' ''A'' (- 135) 240 180 [PositionedNode ''a1'' ''A1'' 0 400 180 []])
       \<noteq> node_x (PositionedNode ''a1'' ''A1'' 0 400 180 [])"
  by (simp add: layoutTree.simps [of "FamilyMember ''r'' ''R''
        [FamilyMember ''a'' ''A'' [FamilyMember ''a1'' ''A1'' []],
         FamilyMember ''b'' ''B'' [FamilyMember ''b1'' ''B1'' []]]"]
        layoutTree_one_leaf enumerate_eq_zip upt_rec)

subsection \<open>The input is not mutated\<close>

text \<open>
  Claim C9. Take any store in which the tree \<open>t\<close> of \<open>FamilyMember\<close> objects sits at address
  \<open>node\<close>, and enough fuel for the depth of \<open>t\<close>. Then the call of \<open>layoutTree\<close> returns, and
  in the store it leaves, first, every object that existed before the call is unchanged
  (the old store is an initial segment of the new one), so the input tree, with its ids,
  names and children at every node, is still there; second, the result sits at a new
  address, and all the objects and arrays it is made of are new (\<open>positioned (length s)\<close>:
  none has an address below the size of the old store); third, the result is the
  positioned tree that the functional model \<open>layoutTree\<close> computes from \<open>t\<close>, whatever else
  the store holds.
\<close>

theorem layoutTree_store_frame:
  assumes "stored s node t" and "height t \<le> fuel"
  shows "\<exists>a' s'. layoutTree_store fuel node x y level siblingIndex siblingsCount spacingX spacingY s
                   = Some (a', s')
           \<and> take (length s) s' = s
           \<and> stored s' node t
           \<and> length s \<le> a'
           \<and> positioned (length s) s' a'
                (layoutTree t x y level siblingIndex siblingsCount spacingX spacingY)"
proof -
  from lays_height [OF assms(2)] assms(1)
  obtain a' s' where run: "layoutTree_store fuel node x y level siblingIndex siblingsCount spacingX spacingY s
                   = Some (a', s')"
    and pre: "prefix s s'"
    and pos: "positioned (length s) s' a'
                (layoutTree t x y level siblingIndex siblingsCount spacingX spacingY)"
    unfolding lays_def by blast
  from pre have "take (length s) s' = s"
    by (auto simp: prefix_def)
  moreover from assms(1) pre have "stored s' node t"
    by (rule stored_prefix)
  moreover from pos have "length s \<le> a'"
    by (auto dest: positioned_bounds)
  ultimately show ?thesis
    using run pos by blast
qed

theorem layoutTree_store_frame_witness:
  "stored example_store 5 (FamilyMember ''r'' ''R'' [FamilyMember ''a'' ''A'' [], FamilyMember ''b'' ''B'' []])
   \<and> height (FamilyMember ''r'' ''R'' [FamilyMember ''a'' ''A'' [], FamilyMember ''b'' ''B'' []]) \<le> 2
   \<and> (\<exists>a' s'. layoutTree_store 2 5 0 80 0 0 1 180 160 example_store = Some (a', s')
           \<and> take (length example_store) s' = example_store
           \<and> stored s' 5 (FamilyMember ''r'' ''R'' [FamilyMember ''a'' ''A'' [], FamilyMember ''b'' ''B'' []])
           \<and> length example_store \<le> a'
           \<and> positioned (length example_store) s' a'
                (layoutTree (FamilyMember ''r'' ''R'' [FamilyMember ''a'' ''A'' [], FamilyMember ''b'' ''B'' []])
                   0 80 0 0 1 180 160))"
  using layoutTree_store_frame [of example_store 5
      "FamilyMember ''r'' ''R'' [FamilyMember ''a'' ''A'' [], FamilyMember ''b'' ''B'' []]" 2
      0 80 0 0 1 180 160]
  by (simp add: stored.simps lookup_def example_store_def)

subsection \<open>Siblings do not overlap\<close>




subsection \<open>Levels\<close>




subsection \<open>Determinism\<close>

text \<open>
  Claim C8. Two calls of \<open>layoutTree\<close> with the same arguments, made in any two stores that
  hold the input tree at \<open>node\<close> (for instance before and after other calls of
  \<open>layoutTree\<close>, which leave their objects in the store), both return, and the two results
  are the same positioned tree: equal id, name, \<open>x\<close>, \<open>y\<close>, width and children at every
  node. Whatever else the store holds has no influence, and the store determines the tree
  at an address (lemma \<open>positioned_unique\<close>).
\<close>

theorem layoutTree_store_deterministic:
  assumes "stored s1 node t" and "stored s2 node t"
    and "height t \<le> fuel1" and "height t \<le> fuel2"
  shows "\<exists>a1 s1' a2 s2' p.
           layoutTree_store fuel1 node x y level siblingIndex siblingsCount spacingX spacingY s1
             = Some (a1, s1')
         \<and> layoutTree_store fuel2 node x y level siblingIndex siblingsCount spacingX spacingY s2
             = Some (a2, s2')
         \<and> positioned (length s1) s1' a1 p
         \<and> positioned (length s2) s2' a2 p"
proof -
  let ?p = "layoutTree t x y level siblingIndex siblingsCount spacingX spacingY"
  from lays_height [OF assms(3)] assms(1)
  obtain a1 s1' where
    "layoutTree_store fuel1 node x y level siblingIndex siblingsCount spacingX spacingY s1
       = Some (a1, s1')" "positioned (length s1) s1' a1 ?p"
    unfolding lays_def by blast
  moreover from lays_height [OF assms(4)] assms(2)
  obtain a2 s2' where
    "layoutTree_store fuel2 node x y level siblingIndex siblingsCount spacingX spacingY s2
       = Some (a2, s2')" "positioned (length s2) s2' a2 ?p"
    unfolding lays_def by blast
  ultimately show ?thesis
    by blast
qed

theorem layoutTree_store_deterministic_witness:
  "stored example_store 5
     (FamilyMember ''r'' ''R'' [FamilyMember ''a'' ''A'' [], FamilyMember ''b'' ''B'' []])
   \<and> stored example_store_after 5
     (FamilyMember ''r'' ''R'' [FamilyMember ''a'' ''A'' [], FamilyMember ''b'' ''B'' []])
   \<and> height (FamilyMember ''r'' ''R'' [FamilyMember ''a'' ''A'' [], FamilyMember ''b'' ''B'' []]) \<le> 2
   \<and> (\<exists>a1 s1' a2 s2' p.
         layoutTree_store 2 5 0 80 0 0 1 180 160 example_store = Some (a1, s1')
       \<and> layoutTree_store 2 5 0 80 0 0 1 180 160 example_store_after = Some (a2, s2')
       \<and> positioned (length example_store) s1' a1 p
       \<and> positioned (length example_store_after) s2' a2 p)"
  using layoutTree_store_deterministic [of example_store 5
      "FamilyMember ''r'' ''R'' [FamilyMember ''a'' ''A'' [], FamilyMember ''b'' ''B'' []]"
      example_store_after 2 2 0 80 0 0 1 180 160]
  by (simp add: stored.simps lookup_def example_store_def example_store_after_def)

end
